theory Spec2Isabelle
  imports Main
begin

section \<open>Python primitives used by parse-vue-component.py\<close>

text \<open>
  A text buffer (a Python \<open>str\<close>) is a \<open>string\<close>: the list of its characters, one
  \<open>char\<close> per code point, for buffers whose code points are below 256. Indices,
  positions and the depth counter are Python integers, hence \<open>int\<close>.
  An exception is a value: every function that indexes the buffer returns
  \<open>py_error + 'a\<close>, with \<open>Inl\<close> for the exception.
\<close>

datatype py_error = IndexError | FileNotFoundError

definition dquote :: char where "dquote = CHR 0x22"
definition squote :: char where "squote = CHR 0x27"
definition backtick :: char where "backtick = CHR 0x60"
definition backslash :: char where "backslash = CHR 0x5C"
definition lbrace :: char where "lbrace = CHR ''{''"
definition rbrace :: char where "rbrace = CHR ''}''"
definition comma :: char where "comma = CHR '',''"
definition dollar :: char where "dollar = CHR ''$''"

text \<open>\<open>text[i]\<close>: a negative index counts from the end, an index out of range raises.\<close>

definition py_index :: "string \<Rightarrow> int \<Rightarrow> py_error + char" where
  "py_index text i =
     (let n = int (length text); j = (if i < 0 then n + i else i)
      in if 0 \<le> j \<and> j < n then Inr (text ! nat j) else Inl IndexError)"

text \<open>\<open>text[a:b]\<close>: negative bounds count from the end, then both are clamped; never raises.\<close>

definition py_clamp :: "string \<Rightarrow> int \<Rightarrow> nat" where
  "py_clamp text a =
     (let n = int (length text); a' = (if a < 0 then n + a else a)
      in if a' < 0 then 0 else if n < a' then length text else nat a')"

definition py_slice :: "string \<Rightarrow> int \<Rightarrow> int \<Rightarrow> string" where
  "py_slice text a b = take (py_clamp text b - py_clamp text a) (drop (py_clamp text a) text)"

text \<open>
  \<open>s.replace(old, new)\<close>: the occurrences of \<open>old\<close> are replaced from left to right
  without overlap; an empty \<open>old\<close> matches before every character and at the end.
\<close>

function py_replace :: "string \<Rightarrow> string \<Rightarrow> string \<Rightarrow> string" where
  "py_replace old new s =
     (if old = [] then new @ concat (map (\<lambda>c. c # new) s)
      else if s = [] then []
      else if take (length old) s = old then new @ py_replace old new (drop (length old) s)
      else hd s # py_replace old new (tl s))"
  by pat_completeness auto
termination
  by (relation "measure (\<lambda>(old, new, s). length s)") auto

declare py_replace.simps [simp del]

text \<open>
  \<open>s.splitlines()\<close>, for code points below 256: the line boundaries are
  \<open>\n\<close>, \<open>\r\<close>, \<open>\r\n\<close>, \<open>\v\<close>, \<open>\f\<close>, \<open>\x1c\<close>, \<open>\x1d\<close>, \<open>\x1e\<close> and \<open>\x85\<close>;
  a final line break does not open an empty last line.
\<close>

definition is_linebreak :: "char \<Rightarrow> bool" where
  "is_linebreak c \<longleftrightarrow>
     c \<in> set [CHR 0x0A, CHR 0x0D, CHR 0x0B, CHR 0x0C, CHR 0x1C, CHR 0x1D, CHR 0x1E, CHR 0x85]"

fun splitlines_from :: "string \<Rightarrow> string \<Rightarrow> string list" where
  "splitlines_from cur [] = (if cur = [] then [] else [cur])"
| "splitlines_from cur [c] =
     (if is_linebreak c then [cur] else [cur @ [c]])"
| "splitlines_from cur (c # d # cs) =
     (if c = CHR 0x0D \<and> d = CHR 0x0A then cur # splitlines_from [] cs
      else if is_linebreak c then cur # splitlines_from [] (d # cs)
      else splitlines_from (cur @ [c]) (d # cs))"

definition splitlines :: "string \<Rightarrow> string list" where
  "splitlines s = splitlines_from [] s"

section \<open>The depth scanner\<close>

text \<open>
  \<open>find_matching_brace\<close>, lines 6 to 35. The loop state is \<open>i\<close>, \<open>depth\<close>,
  \<open>in_string\<close> and \<open>string_char\<close> (\<open>None\<close> as in the source). Lines 17 to 23, the
  handling of string literals, are \<open>string_literal\<close>: it returns the new
  \<open>in_string\<close> and \<open>string_char\<close>. The test \<open>i == 0 or text[i-1] != '\\'\<close> is
  evaluated only for a quote character, and \<open>text[i-1]\<close> only when \<open>i\<close> is not 0.
\<close>

definition quote_chars :: "char list" where
  "quote_chars = [dquote, squote, backtick]"

definition string_literal ::
  "string \<Rightarrow> int \<Rightarrow> char \<Rightarrow> bool \<Rightarrow> char option \<Rightarrow> py_error + (bool \<times> char option)" where
  "string_literal text i char in_string string_char =
     (if char \<in> set quote_chars then
        (case (if i = 0 then Inr True
               else (case py_index text (i - 1) of
                       Inl e \<Rightarrow> Inl e
                     | Inr p \<Rightarrow> Inr (p \<noteq> backslash))) of
           Inl e \<Rightarrow> Inl e
         | Inr unescaped \<Rightarrow>
             if unescaped then
               (if \<not> in_string then Inr (True, Some char)
                else if Some char = string_char then Inr (False, None)
                else Inr (in_string, string_char))
             else Inr (in_string, string_char))
      else Inr (in_string, string_char))"

function fmb_loop ::
  "string \<Rightarrow> int \<Rightarrow> int \<Rightarrow> bool \<Rightarrow> char option \<Rightarrow> py_error + int" where
  "fmb_loop text i depth in_string string_char =
     (if i < int (length text) then
        (case py_index text i of
           Inl e \<Rightarrow> Inl e
         | Inr char \<Rightarrow>
             (case string_literal text i char in_string string_char of
                Inl e \<Rightarrow> Inl e
              | Inr (in_string', string_char') \<Rightarrow>
                  if \<not> in_string' then
                    (if char = lbrace then
                       fmb_loop text (i + 1) (depth + 1) in_string' string_char'
                     else if char = rbrace then
                       (if depth - 1 = 0 then Inr i
                        else fmb_loop text (i + 1) (depth - 1) in_string' string_char')
                     else fmb_loop text (i + 1) depth in_string' string_char')
                  else fmb_loop text (i + 1) depth in_string' string_char'))
      else Inr (- 1))"
  by pat_completeness auto
termination
  by (relation "measure (\<lambda>(text, i, depth, in_string, string_char). nat (int (length text) - i))")
     auto

declare fmb_loop.simps [simp del]

definition find_matching_brace :: "string \<Rightarrow> int \<Rightarrow> py_error + int" where
  "find_matching_brace text start_pos = fmb_loop text start_pos 0 False None"

section \<open>Anchor patterns\<close>

text \<open>
  The four regular expressions of the extractors use only literal text and \<open>\s*\<close>.
  A pattern is a list of such items, and \<open>re_match\<close> is the backtracking matcher of
  \<open>re\<close> for them: \<open>\s*\<close> first takes as many whitespace characters as it can and gives
  them back one by one when the rest of the pattern fails. The result is the number of
  characters matched. \<open>\s\<close> on a \<open>str\<close> pattern is Unicode whitespace; \<open>is_space\<close> lists
  the whitespace code points below 256.
\<close>

datatype re_item = Lit string | Spaces

definition is_space :: "char \<Rightarrow> bool" where
  "is_space c \<longleftrightarrow>
     c \<in> set [CHR 0x09, CHR 0x0A, CHR 0x0B, CHR 0x0C, CHR 0x0D, CHR 0x1C, CHR 0x1D,
              CHR 0x1E, CHR 0x1F, CHR 0x20, CHR 0x85, CHR 0xA0]"

fun re_match :: "re_item list \<Rightarrow> string \<Rightarrow> nat option" where
  "re_match [] s = Some 0"
| "re_match (Lit l # r) s =
     (if take (length l) s = l
      then map_option (\<lambda>n. length l + n) (re_match r (drop (length l) s))
      else None)"
| "re_match (Spaces # r) [] = re_match r []"
| "re_match (Spaces # r) (c # cs) =
     (if is_space c then
        (case re_match (Spaces # r) cs of
           Some n \<Rightarrow> Some (Suc n)
         | None \<Rightarrow> re_match r (c # cs))
      else re_match r (c # cs))"

text \<open>
  \<open>re.search\<close> tries the start positions from left to right, the end of the buffer
  included. The result is \<open>(match.start(), match.end())\<close>.
\<close>

fun re_search_from :: "re_item list \<Rightarrow> string \<Rightarrow> nat \<Rightarrow> (nat \<times> nat) option" where
  "re_search_from p [] pos = map_option (\<lambda>n. (pos, pos + n)) (re_match p [])"
| "re_search_from p (c # cs) pos =
     (case re_match p (c # cs) of
        Some n \<Rightarrow> Some (pos, pos + n)
      | None \<Rightarrow> re_search_from p cs (Suc pos))"

definition re_search :: "re_item list \<Rightarrow> string \<Rightarrow> (nat \<times> nat) option" where
  "re_search p content = re_search_from p content 0"

text \<open>\<open>r'template:\s*\\`'\<close>: the key, whitespace, a backslash and a backtick.\<close>

definition template_pattern :: "re_item list" where
  "template_pattern = [Lit ''template:'', Spaces, Lit [backslash, backtick]]"

text \<open>
  \<open>rf'{section_name}:\s*{{'\<close> and \<open>rf'{hook_name}\(\)\s*{{'\<close> paste the name into the
  regular expression, where a name with a metacharacter would be read as a pattern or
  refused. The program calls \<open>extract_section\<close> with \<open>'computed'\<close> and \<open>'methods'\<close> and
  \<open>extract_lifecycle\<close> with \<open>'mounted'\<close>, and with nothing else. These calls are the
  values of \<open>section_key\<close> and \<open>hook\<close>; their names hold letters only, so each is matched
  as literal text.
\<close>

datatype section_key = Computed | Methods

datatype hook = Mounted

fun section_name :: "section_key \<Rightarrow> string" where
  "section_name Computed = ''computed''"
| "section_name Methods = ''methods''"

fun hook_name :: "hook \<Rightarrow> string" where
  "hook_name Mounted = ''mounted''"

definition section_pattern :: "section_key \<Rightarrow> re_item list" where
  "section_pattern key = [Lit (section_name key), Lit '':'', Spaces, Lit [lbrace]]"

definition data_pattern :: "re_item list" where
  "data_pattern =
     [Lit ''data()'', Spaces, Lit [lbrace], Spaces, Lit ''return'', Spaces, Lit [lbrace]]"

definition lifecycle_pattern :: "hook \<Rightarrow> re_item list" where
  "lifecycle_pattern h = [Lit (hook_name h), Lit ''()'', Spaces, Lit [lbrace]]"

section \<open>The section extractors\<close>

text \<open>
  \<open>extract_template\<close>, lines 37 to 62. \<open>unescape\<close> is line 58; \<open>template_loop\<close> is the
  loop of lines 48 to 60 (the variable \<open>depth\<close> of line 46 is never read).
\<close>

definition unescape :: "string \<Rightarrow> string" where
  "unescape template =
     py_replace [backslash, dollar] [dollar]
       (py_replace [backslash, squote] [squote]
          (py_replace [backslash, backtick] [backtick] template))"

function template_loop :: "string \<Rightarrow> int \<Rightarrow> int \<Rightarrow> py_error + string option" where
  "template_loop content start i =
     (if i < int (length content) then
        (if py_slice content i (i + 2) = [backslash, backtick] then
           template_loop content start (i + 2)
         else
           (case py_index content i of
              Inl e \<Rightarrow> Inl e
            | Inr c \<Rightarrow>
                (case (if c = backtick then
                         (case py_index content (i - 1) of
                            Inl e \<Rightarrow> Inl e
                          | Inr p \<Rightarrow> Inr (p \<noteq> backslash))
                       else Inr False) of
                   Inl e \<Rightarrow> Inl e
                 | Inr candidate \<Rightarrow>
                     if candidate \<and>
                        (let after = py_slice content (i + 1) (i + 10)
                         in comma \<in> set after \<or> rbrace \<in> set after)
                     then Inr (Some (unescape (py_slice content start i)))
                     else template_loop content start (i + 1))))
      else Inr None)"
  by pat_completeness auto
termination
  by (relation "measure (\<lambda>(content, start, i). nat (int (length content) - i))") auto

declare template_loop.simps [simp del]

definition extract_template :: "string \<Rightarrow> py_error + string option" where
  "extract_template content =
     (case re_search template_pattern content of
        None \<Rightarrow> Inr None
      | Some (s, e) \<Rightarrow> template_loop content (int e) (int e))"

text \<open>
  Lines 71 to 76, 84 to 89 and 98 to 103 are the same text: from the end of the
  match, step back onto the opening brace, scan, and slice between the braces.
\<close>

definition between_braces :: "string \<Rightarrow> nat \<Rightarrow> py_error + string option" where
  "between_braces content match_end =
     (let start = int match_end - 1
      in case find_matching_brace content start of
           Inl e \<Rightarrow> Inl e
         | Inr end \<Rightarrow>
             if end = - 1 then Inr None
             else Inr (Some (py_slice content (start + 1) end)))"

definition extract_section :: "string \<Rightarrow> section_key \<Rightarrow> py_error + string option" where
  "extract_section content key =
     (case re_search (section_pattern key) content of
        None \<Rightarrow> Inr None
      | Some (s, e) \<Rightarrow> between_braces content e)"

definition extract_data :: "string \<Rightarrow> py_error + string option" where
  "extract_data content =
     (case re_search data_pattern content of
        None \<Rightarrow> Inr None
      | Some (s, e) \<Rightarrow> between_braces content e)"

definition extract_lifecycle :: "string \<Rightarrow> hook \<Rightarrow> py_error + string option" where
  "extract_lifecycle content h =
     (case re_search (lifecycle_pattern h) content of
        None \<Rightarrow> Inr None
      | Some (s, e) \<Rightarrow> between_braces content e)"

section \<open>The driver\<close>

text \<open>
  Lines 105 to 142. The world is the files by path and the lines printed so far.
  \<open>Extracted name n\<close> stands for the line \<open>Extracted name (n lines)\<close> behind its check
  mark, \<open>Done\<close> for the closing message. \<open>save_section\<close> is one of the five blocks
  \<open>if section: ...\<close>: \<open>None\<close> and the empty string are both false in Python.
\<close>

datatype console_line = Extracted string nat | Done

record world =
  files :: "string \<rightharpoonup> string"
  stdout :: "console_line list"

definition save_section :: "string \<Rightarrow> string \<Rightarrow> string option \<Rightarrow> world \<Rightarrow> world" where
  "save_section path name section w =
     (case section of
        None \<Rightarrow> w
      | Some span \<Rightarrow>
          if span = [] then w
          else w\<lparr>files := (files w)(path \<mapsto> span),
                 stdout := stdout w @ [Extracted name (length (splitlines span))]\<rparr>)"

definition driver :: "world \<Rightarrow> py_error + world" where
  "driver w =
     (case files w ''frontend/extracted-dashboard.js'' of
        None \<Rightarrow> Inl FileNotFoundError
      | Some content \<Rightarrow>
     (case extract_template content of Inl e \<Rightarrow> Inl e | Inr template \<Rightarrow>
     (case extract_data content of Inl e \<Rightarrow> Inl e | Inr data \<Rightarrow>
     (case extract_section content Computed of Inl e \<Rightarrow> Inl e | Inr computed \<Rightarrow>
     (case extract_section content Methods of Inl e \<Rightarrow> Inl e | Inr methods \<Rightarrow>
     (case extract_lifecycle content Mounted of Inl e \<Rightarrow> Inl e | Inr mounted \<Rightarrow>
        (let w1 = save_section ''frontend/vue-template.html'' ''template'' template w;
             w2 = save_section ''frontend/vue-data.js'' ''data'' data w1;
             w3 = save_section ''frontend/vue-computed.js'' ''computed'' computed w2;
             w4 = save_section ''frontend/vue-methods.js'' ''methods'' methods w3;
             w5 = save_section ''frontend/vue-mounted.js'' ''mounted'' mounted w4
         in Inr (w5\<lparr>stdout := stdout w5 @ [Done]\<rparr>))))))))"

section \<open>Quote state and brace depth, as the specification words them\<close>

text \<open>
  \<open>quote_state text start n\<close> is the quote character that is open after the \<open>n\<close>
  characters from index \<open>start\<close> on: a quote character that is not preceded by a
  backslash opens a string when none is open, closes the string that it opened, and
  is inert inside a string opened by another quote character.
  \<open>brace_depth text start n\<close> is the depth after the same \<open>n\<close> characters: outside a
  string an opening brace adds one and a closing brace takes one away.
  \<open>closes_at text start n\<close>: the character at \<open>start + n\<close> is a closing brace outside
  any string that brings the depth back to zero.
\<close>

fun quote_state :: "string \<Rightarrow> nat \<Rightarrow> nat \<Rightarrow> char option" where
  "quote_state text start 0 = None"
| "quote_state text start (Suc n) =
     (let i = start + n; c = text ! i; q = quote_state text start n
      in if c \<in> set quote_chars \<and> (i = 0 \<or> text ! (i - 1) \<noteq> backslash)
         then (case q of None \<Rightarrow> Some c | Some opener \<Rightarrow> if c = opener then None else Some opener)
         else q)"

fun brace_depth :: "string \<Rightarrow> nat \<Rightarrow> nat \<Rightarrow> int" where
  "brace_depth text start 0 = 0"
| "brace_depth text start (Suc n) =
     (let c = text ! (start + n); d = brace_depth text start n
      in if quote_state text start (Suc n) = None
         then (if c = lbrace then d + 1 else if c = rbrace then d - 1 else d)
         else d)"

definition closes_at :: "string \<Rightarrow> nat \<Rightarrow> nat \<Rightarrow> bool" where
  "closes_at text start n \<longleftrightarrow>
     text ! (start + n) = rbrace \<and> quote_state text start (Suc n) = None \<and>
     brace_depth text start (Suc n) = 0"

section \<open>The scanner follows the quote state and the brace depth\<close>

text \<open>
  After \<open>n\<close> characters without a return, the loop variables of \<open>find_matching_brace\<close>
  are \<open>brace_depth\<close> and \<open>quote_state\<close> of those characters; the scanner returns at the
  first position that \<open>closes_at\<close> holds for, and \<open>-1\<close> when there is none.
\<close>

lemma py_index_nat: "i < length text \<Longrightarrow> py_index text (int i) = Inr (text ! i)"
  by (simp add: py_index_def)

lemma string_literal_quote_state:
  assumes "start + n < length text"
  shows "string_literal text (int (start + n)) (text ! (start + n))
           (quote_state text start n \<noteq> None) (quote_state text start n)
         = Inr (quote_state text start (Suc n) \<noteq> None, quote_state text start (Suc n))"
proof (cases "start + n = 0")
  case True
  then show ?thesis
    by (auto simp: string_literal_def Let_def split: option.splits)
next
  case False
  then have "int (start + n) - 1 = int (start + n - 1)" by linarith
  moreover have "start + n - 1 < length text" using assms by simp
  ultimately have "py_index text (int (start + n) - 1) = Inr (text ! (start + n - 1))"
    using py_index_nat by metis
  with False show ?thesis
    by (auto simp: string_literal_def Let_def split: option.splits)
qed

lemma fmb_loop_step:
  assumes "start + n < length text"
  shows "fmb_loop text (int (start + n)) (brace_depth text start n)
           (quote_state text start n \<noteq> None) (quote_state text start n)
         = (if closes_at text start n then Inr (int (start + n))
            else fmb_loop text (int (start + Suc n)) (brace_depth text start (Suc n))
                   (quote_state text start (Suc n) \<noteq> None) (quote_state text start (Suc n)))"
proof -
  have i: "int (start + n) < int (length text)" using assms by simp
  have s: "int (start + n) + 1 = int (start + Suc n)" by simp
  show ?thesis
    apply (subst fmb_loop.simps)
    apply (simp only: i if_True py_index_nat [OF assms] sum.case
             string_literal_quote_state [OF assms] prod.case s)
    apply (auto simp: closes_at_def Let_def lbrace_def rbrace_def)
    done
qed

lemma fmb_loop_invariant:
  assumes "start + n \<le> length text" and "\<forall>m<n. \<not> closes_at text start m"
  shows "fmb_loop text (int start) 0 False None
         = fmb_loop text (int (start + n)) (brace_depth text start n)
             (quote_state text start n \<noteq> None) (quote_state text start n)"
  using assms
proof (induction n)
  case 0
  then show ?case by simp
next
  case (Suc n)
  then have "fmb_loop text (int start) 0 False None
         = fmb_loop text (int (start + n)) (brace_depth text start n)
             (quote_state text start n \<noteq> None) (quote_state text start n)"
    by simp
  also have "\<dots> = fmb_loop text (int (start + Suc n)) (brace_depth text start (Suc n))
                   (quote_state text start (Suc n) \<noteq> None) (quote_state text start (Suc n))"
    using Suc.prems fmb_loop_step [of start n "text"] by simp
  finally show ?case .
qed

lemma fmb_closes:
  assumes "start + n < length text" and "closes_at text start n"
    and "\<forall>m<n. \<not> closes_at text start m"
  shows "find_matching_brace text (int start) = Inr (int (start + n))"
  using assms fmb_loop_invariant [of start n "text"] fmb_loop_step [of start n "text"]
  by (simp add: find_matching_brace_def)

lemma fmb_never_closes:
  assumes "\<forall>n. start + n < length text \<longrightarrow> \<not> closes_at text start n"
  shows "find_matching_brace text (int start) = Inr (- 1)"
proof (cases "start \<le> length text")
  case True
  then have "fmb_loop text (int start) 0 False None
         = fmb_loop text (int (start + (length text - start))) (brace_depth text start (length text - start))
             (quote_state text start (length text - start) \<noteq> None) (quote_state text start (length text - start))"
    using assms by (intro fmb_loop_invariant) auto
  also have "\<dots> = Inr (- 1)" using True by (subst fmb_loop.simps) simp
  finally show ?thesis by (simp add: find_matching_brace_def)
next
  case False
  then show ?thesis by (simp add: find_matching_brace_def fmb_loop.simps)
qed

lemma fmb_first_close:
  assumes "\<exists>n. start + n < length txt \<and> closes_at txt start n"
  shows "\<exists>n. start + n < length txt \<and> closes_at txt start n \<and>
             (\<forall>m<n. \<not> closes_at txt start m) \<and>
             find_matching_brace txt (int start) = Inr (int (start + n))"
proof -
  from assms obtain k where k: "start + k < length txt \<and> closes_at txt start k" by blast
  define n where "n = (LEAST n. start + n < length txt \<and> closes_at txt start n)"
  have n: "start + n < length txt \<and> closes_at txt start n"
    unfolding n_def using k by (rule LeastI)
  have least: "\<forall>m<n. \<not> closes_at txt start m"
  proof (intro allI impI notI)
    fix m assume m: "m < n" and c: "closes_at txt start m"
    from m n have "start + m < length txt" by simp
    with c have "n \<le> m" unfolding n_def by (intro Least_le) simp
    with m show False by simp
  qed
  have "find_matching_brace txt (int start) = Inr (int (start + n))"
    using n least by (intro fmb_closes) auto
  with n least show ?thesis by blast
qed

text \<open>
  C10. For every buffer and every start index from 0 to the length of the buffer,
  \<open>find_matching_brace\<close> returns (it is a total function), and what it returns is
  either \<open>-1\<close> or an index \<open>j\<close> from the start index on and below the length at which
  the buffer holds a closing brace; it never raises \<open>IndexError\<close>.
\<close>

theorem find_matching_brace_range:
  assumes "0 \<le> start_pos" and "start_pos \<le> int (length txt)"
  shows "find_matching_brace txt start_pos = Inr (- 1) \<or>
         (\<exists>j. find_matching_brace txt start_pos = Inr j \<and> start_pos \<le> j \<and>
              j < int (length txt) \<and> py_index txt j = Inr rbrace)"
proof -
  define start where "start = nat start_pos"
  have sp: "start_pos = int start" using assms(1) by (simp add: start_def)
  show ?thesis
  proof (cases "\<exists>n. start + n < length txt \<and> closes_at txt start n")
    case True
    then obtain n where n: "start + n < length txt" "closes_at txt start n"
      "find_matching_brace txt (int start) = Inr (int (start + n))"
      using fmb_first_close by blast
    have "txt ! (start + n) = rbrace"
      using n(2) unfolding closes_at_def by blast
    then have "py_index txt (int (start + n)) = Inr rbrace"
      using py_index_nat [OF n(1)] by simp
    with n show ?thesis unfolding sp by auto
  next
    case False
    then have "find_matching_brace txt (int start) = Inr (- 1)"
      by (intro fmb_never_closes) blast
    then show ?thesis unfolding sp by simp
  qed
qed

theorem find_matching_brace_range_witness:
  "(0::int) \<le> 0 \<and> (0::int) \<le> int (length ''{a}'') \<and>
   find_matching_brace ''{a}'' 0 = Inr 2 \<and> py_index ''{a}'' 2 = Inr rbrace"
proof -
  have v: "find_matching_brace ''{a}'' 0 = Inr 2" by code_simp
  have "find_matching_brace ''{a}'' 0 = Inr (- 1) \<or>
         (\<exists>j. find_matching_brace ''{a}'' 0 = Inr j \<and> 0 \<le> j \<and>
              j < int (length ''{a}'') \<and> py_index ''{a}'' j = Inr rbrace)"
    by (rule find_matching_brace_range) simp_all
  with v show ?thesis by auto
qed

section \<open>Braces inside strings, and the depth of well-formed input\<close>

lemma brace_not_quote: "lbrace \<notin> set quote_chars" "rbrace \<notin> set quote_chars"
  by (simp_all add: quote_chars_def lbrace_def rbrace_def dquote_def squote_def backtick_def)

lemma after_opening_brace:
  assumes "buf ! start = lbrace"
  shows "quote_state buf start (Suc 0) = None" and "brace_depth buf start (Suc 0) = 1"
  using assms brace_not_quote by (simp_all add: Let_def)

lemma brace_depth_Suc_cases:
  "brace_depth buf start (Suc n) =
     (if quote_state buf start (Suc n) = None \<and> buf ! (start + n) = lbrace
      then brace_depth buf start n + 1
      else if quote_state buf start (Suc n) = None \<and> buf ! (start + n) = rbrace
      then brace_depth buf start n - 1
      else brace_depth buf start n)"
  by (simp add: Let_def del: quote_state.simps)

declare quote_state.simps(2) [simp del] brace_depth.simps(2) [simp del]

lemma depth_one_while_braces_in_strings:
  assumes "buf ! start = lbrace"
    and "\<forall>m. 0 < m \<and> m < n \<and> buf ! (start + m) \<in> {lbrace, rbrace}
             \<longrightarrow> quote_state buf start (Suc m) \<noteq> None"
    and "m < n"
  shows "brace_depth buf start (Suc m) = 1"
  using assms(3)
proof (induction m)
  case 0
  then show ?case using after_opening_brace(2) [OF assms(1)] by simp
next
  case (Suc m)
  then have ih: "brace_depth buf start (Suc m) = 1" by simp
  have "0 < Suc m \<and> Suc m < n" using Suc.prems by simp
  with assms(2) have "buf ! (start + Suc m) \<in> {lbrace, rbrace}
      \<longrightarrow> quote_state buf start (Suc (Suc m)) \<noteq> None" by blast
  then show ?case
    using ih unfolding brace_depth_Suc_cases [of buf start "Suc m"] by auto
qed

lemma fmb_braces_in_strings:
  assumes "start + n < length buf" and "buf ! start = lbrace" and "0 < n"
    and "buf ! (start + n) = rbrace" and "quote_state buf start (Suc n) = None"
    and "\<forall>m. 0 < m \<and> m < n \<and> buf ! (start + m) \<in> {lbrace, rbrace}
             \<longrightarrow> quote_state buf start (Suc m) \<noteq> None"
  shows "find_matching_brace buf (int start) = Inr (int (start + n))"
proof (rule fmb_closes)
  show "start + n < length buf" by fact
  have one: "\<And>m. m < n \<Longrightarrow> brace_depth buf start (Suc m) = 1"
    using depth_one_while_braces_in_strings [OF assms(2) assms(6)] by blast
  from assms(3) obtain k where k: "n = Suc k" by (cases n) auto
  then have "brace_depth buf start n = 1" using one [of k] by simp
  then have "brace_depth buf start (Suc n) = 0"
    using assms(4,5) unfolding brace_depth_Suc_cases [of buf start n]
    by (simp add: lbrace_def rbrace_def)
  then show "closes_at buf start n" using assms(4,5) unfolding closes_at_def by blast
  show "\<forall>m<n. \<not> closes_at buf start m"
    using one unfolding closes_at_def by auto
qed

lemma brace_depth_positive:
  assumes "brace_depth buf start (Suc 0) = 1"
    and "\<forall>m<n. brace_depth buf start (Suc m) \<noteq> 0"
    and "m < n"
  shows "0 < brace_depth buf start (Suc m)"
  using assms(3)
proof (induction m)
  case 0
  then show ?case using assms(1) by simp
next
  case (Suc m)
  then have ih: "0 < brace_depth buf start (Suc m)" by simp
  have nz: "brace_depth buf start (Suc (Suc m)) \<noteq> 0" using assms(2) Suc.prems by blast
  have "brace_depth buf start (Suc (Suc m)) \<ge> brace_depth buf start (Suc m) - 1"
    unfolding brace_depth_Suc_cases [of buf start "Suc m"] by auto
  with ih nz show ?case by linarith
qed

lemma fmb_depth_returns_to_zero:
  assumes "start < length buf" and "buf ! start = lbrace"
    and "\<exists>n. start + n < length buf \<and> brace_depth buf start (Suc n) = 0"
  shows "\<exists>j. find_matching_brace buf (int start) = Inr (int j) \<and> start < j \<and> j < length buf \<and>
             buf ! j = rbrace \<and>
             brace_depth buf start (Suc (j - start)) = 0 \<and>
             (\<forall>k. start \<le> k \<and> k < j \<longrightarrow> 0 < brace_depth buf start (Suc (k - start)))"
proof -
  define P where "P = (\<lambda>n. start + n < length buf \<and> brace_depth buf start (Suc n) = 0)"
  define n where "n = (LEAST n. P n)"
  from assms(3) obtain k where "P k" unfolding P_def by blast
  then have Pn: "P n" unfolding n_def by (rule LeastI)
  have least: "\<And>m. m < n \<Longrightarrow> \<not> P m" unfolding n_def by (rule not_less_Least)
  have first: "brace_depth buf start (Suc 0) = 1" by (rule after_opening_brace(2) [OF assms(2)])
  have len: "start + n < length buf" and zero: "brace_depth buf start (Suc n) = 0"
    using Pn unfolding P_def by auto
  have nz: "\<forall>m<n. brace_depth buf start (Suc m) \<noteq> 0"
    using least len unfolding P_def by auto
  have pos: "\<And>m. m < n \<Longrightarrow> 0 < brace_depth buf start (Suc m)"
    using brace_depth_positive [OF first nz] by blast
  have "n \<noteq> 0" using zero first by (metis zero_neq_one)
  then obtain p where p: "n = Suc p" by (cases n) auto
  have dp: "0 < brace_depth buf start n" using pos [of p] p by simp
  have step: "buf ! (start + n) = rbrace \<and> quote_state buf start (Suc n) = None"
    using zero dp unfolding brace_depth_Suc_cases [of buf start n]
    by (auto split: if_splits)
  then have c: "closes_at buf start n" using zero unfolding closes_at_def by blast
  have nc: "\<forall>m<n. \<not> closes_at buf start m" using nz unfolding closes_at_def by blast
  have r: "find_matching_brace buf (int start) = Inr (int (start + n))"
    using len c nc by (rule fmb_closes)
  show ?thesis
  proof (intro exI [of _ "start + n"] conjI allI impI)
    show "find_matching_brace buf (int start) = Inr (int (start + n))" by (rule r)
    show "start < start + n" using \<open>n \<noteq> 0\<close> by simp
    show "start + n < length buf" by (rule len)
    show "buf ! (start + n) = rbrace" using step by blast
    show "brace_depth buf start (Suc (start + n - start)) = 0" using zero by simp
    fix k assume "start \<le> k \<and> k < start + n"
    then have "k - start < n" by linarith
    then show "0 < brace_depth buf start (Suc (k - start))" by (rule pos)
  qed
qed

text \<open>
  C1. Let the buffer hold an opening brace at the start index and a closing brace
  outside any string \<open>n\<close> characters later, and let every brace in between be
  inside a quoted string literal. Then \<open>find_matching_brace\<close> does not count the
  braces in between: it returns the index of that closing brace. On the buffer
  \<open>{"a}b"}\<close>, scanned from 0, this is index 6, not index 3.
\<close>

theorem in_string_braces_not_counted:
  assumes "start + n < length buf" and "buf ! start = lbrace" and "0 < n"
    and "buf ! (start + n) = rbrace" and "quote_state buf start (Suc n) = None"
    and "\<forall>m\<in>{1..<n}. buf ! (start + m) \<in> {lbrace, rbrace}
             \<longrightarrow> quote_state buf start (Suc m) \<noteq> None"
  shows "find_matching_brace buf (int start) = Inr (int (start + n))"
  using assms by (intro fmb_braces_in_strings) auto

theorem in_string_braces_not_counted_witness:
  "0 + 6 < length ''{\"a}b\"}'' \<and> ''{\"a}b\"}'' ! 0 = lbrace \<and> (0::nat) < 6 \<and>
   ''{\"a}b\"}'' ! (0 + 6) = rbrace \<and> quote_state ''{\"a}b\"}'' 0 (Suc 6) = None \<and>
   ''{\"a}b\"}'' ! 3 = rbrace \<and> quote_state ''{\"a}b\"}'' 0 (Suc 3) \<noteq> None \<and>
   find_matching_brace ''{\"a}b\"}'' 0 = Inr 6"
proof -
  have h1: "0 + 6 < length ''{\"a}b\"}''" by simp
  have h2: "''{\"a}b\"}'' ! 0 = lbrace" by (simp add: lbrace_def)
  have h3: "(0::nat) < 6" by simp
  have h4: "''{\"a}b\"}'' ! (0 + 6) = rbrace" by (simp add: rbrace_def)
  have h5: "quote_state ''{\"a}b\"}'' 0 (Suc 6) = None" by code_simp
  have h6: "\<forall>m\<in>{1..<6}. ''{\"a}b\"}'' ! (0 + m) \<in> {lbrace, rbrace}
             \<longrightarrow> quote_state ''{\"a}b\"}'' 0 (Suc m) \<noteq> None" by code_simp
  have h7: "''{\"a}b\"}'' ! 3 = rbrace" by (simp add: rbrace_def)
  have "find_matching_brace ''{\"a}b\"}'' (int 0) = Inr (int (0 + 6))"
    using h1 h2 h3 h4 h5 h6 by (rule in_string_braces_not_counted)
  then have "find_matching_brace ''{\"a}b\"}'' 0 = Inr 6" by simp
  moreover have "quote_state ''{\"a}b\"}'' 0 (Suc 3) \<noteq> None" by code_simp
  ultimately show ?thesis using h1 h2 h3 h4 h5 h7 by blast
qed

section \<open>Escaped quotes and other quote characters inside a string\<close>









section \<open>The scan for the closing backtick\<close>

lemma py_clamp_nat: "py_clamp buf (int a) = min a (length buf)"
  by (simp add: py_clamp_def Let_def)

lemma py_slice_nat: "py_slice buf (int a) (int b) = take (b - a) (drop a buf)"
  unfolding py_slice_def py_clamp_nat by (simp add: min_def)

lemma template_loop_step:
  assumes "0 < i" and "i < length content"
  shows "template_loop content start (int i) =
           (if take 2 (drop i content) = [backslash, backtick]
            then template_loop content start (int (i + 2))
            else if content ! i = backtick \<and> content ! (i - 1) \<noteq> backslash \<and>
                    (comma \<in> set (take 9 (drop (Suc i) content)) \<or>
                     rbrace \<in> set (take 9 (drop (Suc i) content)))
            then Inr (Some (unescape (py_slice content start (int i))))
            else template_loop content start (int (Suc i)))"
proof -
  have lt: "int i < int (length content)" using assms by simp
  have s2: "py_slice content (int i) (int i + 2) = take 2 (drop i content)"
    using py_slice_nat [of content i "i + 2"] by (simp add: add.commute)
  have s9: "py_slice content (int i + 1) (int i + 10) = take 9 (drop (Suc i) content)"
    using py_slice_nat [of content "Suc i" "i + 10"] by (simp add: add.commute)
  have cur: "py_index content (int i) = Inr (content ! i)"
    using assms by (simp add: py_index_nat)
  have "int i - 1 = int (i - 1)" using assms by linarith
  moreover have "i - 1 < length content" using assms by simp
  ultimately have prev: "py_index content (int i - 1) = Inr (content ! (i - 1))"
    using py_index_nat by metis
  have n2: "int i + 2 = int (i + 2)" and n1: "int i + 1 = int (Suc i)" by simp_all
  show ?thesis
    apply (subst template_loop.simps)
    apply (simp only: lt if_True s2 s9 cur prev sum.case Let_def)
    apply (simp add: n2 n1 del: of_nat_add of_nat_Suc)
    done
qed

lemma escaped_pair_nth:
  assumes "Suc i < length content"
  shows "take 2 (drop i content) = [backslash, backtick] \<longleftrightarrow>
         content ! i = backslash \<and> content ! Suc i = backtick"
proof -
  have "take 2 (drop i content) = [content ! i, content ! Suc i]"
    using assms by (simp add: take_Suc_conv_app_nth numeral_2_eq_2)
  then show ?thesis by simp
qed

lemma escaped_pair_end:
  assumes "Suc i = length content"
  shows "take 2 (drop i content) \<noteq> [backslash, backtick]"
proof -
  have "length (drop i content) = 1" using assms by simp
  then obtain c where "drop i content = [c]"
    by (cases "drop i content") auto
  then show ?thesis by simp
qed

lemma template_loop_skip:
  assumes "i \<le> j" and "0 < i" and "j < length content"
    and "\<forall>k. i \<le> k \<and> k < j \<and> content ! k = backtick \<longrightarrow> content ! (k - 1) = backslash"
    and "\<not> (content ! (j - 1) = backslash \<and> content ! j = backtick)"
  shows "template_loop content start (int i) = template_loop content start (int j)"
  using assms(1,2,4)
proof (induction "j - i" arbitrary: i rule: less_induct)
  case less
  show ?case
  proof (cases "i = j")
    case True
    then show ?thesis by simp
  next
    case False
    with less.prems have ij: "i < j" by simp
    then have il: "Suc i < length content" using assms(3) by simp
    have step: "template_loop content start (int i) =
           (if take 2 (drop i content) = [backslash, backtick]
            then template_loop content start (int (i + 2))
            else if content ! i = backtick \<and> content ! (i - 1) \<noteq> backslash \<and>
                    (comma \<in> set (take 9 (drop (Suc i) content)) \<or>
                     rbrace \<in> set (take 9 (drop (Suc i) content)))
            then Inr (Some (unescape (py_slice content start (int i))))
            else template_loop content start (int (Suc i)))"
      by (rule template_loop_step) (use less.prems il in simp_all)
    show ?thesis
    proof (cases "take 2 (drop i content) = [backslash, backtick]")
      case True
      then have pair: "content ! i = backslash" "content ! Suc i = backtick"
        using escaped_pair_nth [OF il] by simp_all
      have "Suc i \<noteq> j" using pair assms(5) by auto
      with ij have le: "i + 2 \<le> j" by simp
      have "template_loop content start (int i) = template_loop content start (int (i + 2))"
        by (simp only: step True if_True simp_thms)
      also have "\<dots> = template_loop content start (int j)"
        by (rule less.hyps) (use le less.prems in auto)
      finally show ?thesis .
    next
      case False
      have nocand: "\<not> (content ! i = backtick \<and> content ! (i - 1) \<noteq> backslash \<and>
                    (comma \<in> set (take 9 (drop (Suc i) content)) \<or>
                     rbrace \<in> set (take 9 (drop (Suc i) content))))"
        using less.prems(3) ij by auto
      have "template_loop content start (int i) = template_loop content start (int (Suc i))"
        by (simp only: step False nocand if_False simp_thms)
      also have "\<dots> = template_loop content start (int j)"
        by (rule less.hyps) (use ij less.prems in auto)
      finally show ?thesis .
    qed
  qed
qed

text \<open>
  C6. Let the scan of \<open>extract_template\<close> stand at a position \<open>i\<close> after the anchor, and
  let \<open>j\<close> be the next backtick that the scan can stop at: every backtick from \<open>i\<close> up
  to \<open>j\<close> is preceded by a backslash. If the backtick at \<open>j\<close> is not preceded by a
  backslash, the scan ends there with the span before it, unescaped, exactly when a
  comma or a closing brace is among the nine characters after \<open>j\<close>; otherwise the
  backtick is content and the scan goes on behind it. If the backtick at \<open>j\<close> is
  preceded by a backslash, the pair is skipped and the scan goes on behind it without
  closing.
\<close>

theorem template_backtick_lookahead:
  assumes "0 < i" and "i \<le> j" and "j < length content"
    and "\<forall>k. i \<le> k \<and> k < j \<and> content ! k = backtick \<longrightarrow> content ! (k - 1) = backslash"
    and "content ! j = backtick"
  shows "(content ! (j - 1) \<noteq> backslash \<longrightarrow>
            template_loop content start (int i) =
              (if comma \<in> set (take 9 (drop (Suc j) content)) \<or>
                  rbrace \<in> set (take 9 (drop (Suc j) content))
               then Inr (Some (unescape (py_slice content start (int j))))
               else template_loop content start (int (Suc j)))) \<and>
         (i < j \<and> content ! (j - 1) = backslash \<longrightarrow>
            template_loop content start (int i) = template_loop content start (int (Suc j)))"
proof (intro conjI impI)
  assume unesc: "content ! (j - 1) \<noteq> backslash"
  have j0: "0 < j" using assms(1,2) by simp
  have skip: "template_loop content start (int i) = template_loop content start (int j)"
    using assms(2,1,3,4) unesc by (intro template_loop_skip) auto
  have step: "template_loop content start (int j) =
           (if take 2 (drop j content) = [backslash, backtick]
            then template_loop content start (int (j + 2))
            else if content ! j = backtick \<and> content ! (j - 1) \<noteq> backslash \<and>
                    (comma \<in> set (take 9 (drop (Suc j) content)) \<or>
                     rbrace \<in> set (take 9 (drop (Suc j) content)))
            then Inr (Some (unescape (py_slice content start (int j))))
            else template_loop content start (int (Suc j)))"
    using j0 assms(3) by (rule template_loop_step)
  have nopair: "take 2 (drop j content) \<noteq> [backslash, backtick]"
  proof (cases "Suc j < length content")
    case True
    then show ?thesis using escaped_pair_nth [OF True] assms(5)
      by (simp add: backslash_def backtick_def)
  next
    case False
    then have "Suc j = length content" using assms(3) by simp
    then show ?thesis by (rule escaped_pair_end)
  qed
  show "template_loop content start (int i) =
              (if comma \<in> set (take 9 (drop (Suc j) content)) \<or>
                  rbrace \<in> set (take 9 (drop (Suc j) content))
               then Inr (Some (unescape (py_slice content start (int j))))
               else template_loop content start (int (Suc j)))"
    using assms(5) unesc by (simp only: skip step nopair if_False simp_thms)
next
  assume esc: "i < j \<and> content ! (j - 1) = backslash"
  then have p0: "0 < j - 1" and pl: "j - 1 < length content"
    using assms(1,3) by simp_all
  have sj: "Suc (j - 1) = j" using esc by simp
  have "Suc (j - 1) < length content" using assms(3) sj by simp
  then have pair: "take 2 (drop (j - 1) content) = [backslash, backtick]"
    using escaped_pair_nth [of "j - 1" content] esc assms(5) sj by simp
  have "template_loop content start (int (j - 1)) =
           (if take 2 (drop (j - 1) content) = [backslash, backtick]
            then template_loop content start (int (j - 1 + 2))
            else if content ! (j - 1) = backtick \<and> content ! (j - 1 - 1) \<noteq> backslash \<and>
                    (comma \<in> set (take 9 (drop (Suc (j - 1)) content)) \<or>
                     rbrace \<in> set (take 9 (drop (Suc (j - 1)) content)))
            then Inr (Some (unescape (py_slice content start (int (j - 1)))))
            else template_loop content start (int (Suc (j - 1))))"
    using p0 pl by (rule template_loop_step)
  moreover have "j - 1 + 2 = Suc j" using esc by simp
  ultimately have "template_loop content start (int (j - 1)) = template_loop content start (int (Suc j))"
    using pair by (simp only: if_True simp_thms)
  moreover have "template_loop content start (int i) = template_loop content start (int (j - 1))"
  proof (rule template_loop_skip)
    show "i \<le> j - 1" using esc by linarith
    show "0 < i" by (rule assms(1))
    show "j - 1 < length content" by (rule pl)
    show "\<forall>k. i \<le> k \<and> k < j - 1 \<and> content ! k = backtick \<longrightarrow> content ! (k - 1) = backslash"
      using assms(4) by auto
    show "\<not> (content ! (j - 1 - 1) = backslash \<and> content ! (j - 1) = backtick)"
      using esc by (simp add: backslash_def backtick_def)
  qed
  ultimately show "template_loop content start (int i) = template_loop content start (int (Suc j))"
    by simp
qed

theorem template_backtick_lookahead_witness:
  "template_loop (''xab'' @ [backtick] @ ''c'' @ [backtick, comma]) 1 1 = Inr (Some ''ab'') \<and>
   template_loop (''xa'' @ [backtick] @ ''<b>bold</b>'' @ [backtick, comma]) 1 1
     = template_loop (''xa'' @ [backtick] @ ''<b>bold</b>'' @ [backtick, comma]) 1 3 \<and>
   template_loop (''xa'' @ [backslash, backtick, comma, backtick, comma]) 1 1
     = template_loop (''xa'' @ [backslash, backtick, comma, backtick, comma]) 1 4"
proof -
  let ?A = "''xab'' @ [backtick] @ ''c'' @ [backtick, comma]"
  let ?B = "''xa'' @ [backtick] @ ''<b>bold</b>'' @ [backtick, comma]"
  let ?C = "''xa'' @ [backslash, backtick, comma, backtick, comma]"
  have kA: "\<forall>k. 1 \<le> k \<and> k < 3 \<and> ?A ! k = backtick \<longrightarrow> ?A ! (k - 1) = backslash"
    by (auto simp: nth_Cons' backtick_def backslash_def split: if_splits)
  have lA: "comma \<in> set (take 9 (drop (Suc 3) ?A)) \<or> rbrace \<in> set (take 9 (drop (Suc 3) ?A))"
    by (simp add: comma_def)
  have pA: "?A ! (3 - 1) \<noteq> backslash" by (simp add: backslash_def)
  have "template_loop ?A 1 (int 1) =
      (if comma \<in> set (take 9 (drop (Suc 3) ?A)) \<or> rbrace \<in> set (take 9 (drop (Suc 3) ?A))
       then Inr (Some (unescape (py_slice ?A 1 (int 3))))
       else template_loop ?A 1 (int (Suc 3)))"
    using template_backtick_lookahead [of 1 3 ?A 1, THEN conjunct1] kA pA by simp
  then have a: "template_loop ?A 1 (int 1) = Inr (Some (unescape (py_slice ?A 1 (int 3))))"
    using lA by (simp only: if_True)
  have ua: "unescape (py_slice ?A 1 (int 3)) = ''ab''" by code_simp
  have kB: "\<forall>k. 1 \<le> k \<and> k < 2 \<and> ?B ! k = backtick \<longrightarrow> ?B ! (k - 1) = backslash"
    by (auto simp: nth_Cons' backtick_def backslash_def split: if_splits)
  have lB: "\<not> (comma \<in> set (take 9 (drop (Suc 2) ?B)) \<or> rbrace \<in> set (take 9 (drop (Suc 2) ?B)))"
    by (simp add: comma_def rbrace_def)
  have pB: "?B ! (2 - 1) \<noteq> backslash" by (simp add: backslash_def)
  have "template_loop ?B 1 (int 1) =
      (if comma \<in> set (take 9 (drop (Suc 2) ?B)) \<or> rbrace \<in> set (take 9 (drop (Suc 2) ?B))
       then Inr (Some (unescape (py_slice ?B 1 (int 2))))
       else template_loop ?B 1 (int (Suc 2)))"
    using template_backtick_lookahead [of 1 2 ?B 1, THEN conjunct1] kB pB by simp
  then have b: "template_loop ?B 1 (int 1) = template_loop ?B 1 (int (Suc 2))"
    using lB by (simp only: if_False)
  have kC: "\<forall>k. 1 \<le> k \<and> k < 3 \<and> ?C ! k = backtick \<longrightarrow> ?C ! (k - 1) = backslash"
    by (auto simp: nth_Cons' backtick_def backslash_def split: if_splits)
  have c: "template_loop ?C 1 (int 1) = template_loop ?C 1 (int (Suc 3))"
    using template_backtick_lookahead [of 1 3 ?C 1, THEN conjunct2] kC by simp
  from a ua b c show ?thesis by simp
qed

section \<open>Facts about the anchor search\<close>

lemma re_match_bound: "re_match p s = Some n \<Longrightarrow> n \<le> length s"
proof (induction p s arbitrary: n rule: re_match.induct)
  case (1 s)
  then show ?case by simp
next
  case (2 l r s)
  from "2.prems" have t: "take (length l) s = l" by (auto split: if_splits)
  with "2.prems" obtain z where z: "re_match r (drop (length l) s) = Some z" "n = length l + z"
    by auto
  have "z \<le> length (drop (length l) s)" using "2.IH" [OF t z(1)] .
  moreover have "length l \<le> length s"
    using arg_cong [OF t, of length] by (simp add: min_def split: if_splits)
  ultimately show ?case using z(2) by simp
next
  case (3 r)
  then show ?case by simp
next
  case (4 r c cs)
  then show ?case by (auto split: if_splits option.splits)
qed

lemma re_match_literal_length:
  "re_match p s = Some n \<Longrightarrow> Lit l \<in> set p \<Longrightarrow> length l \<le> n"
proof (induction p s arbitrary: n rule: re_match.induct)
  case (1 s)
  then show ?case by simp
next
  case (2 l' r s)
  then show ?case by (auto split: if_splits)
next
  case (3 r)
  then show ?case by simp
next
  case (4 r c cs)
  then show ?case by (auto split: if_splits option.splits)
qed

lemma re_search_from_first:
  assumes "k \<le> length s" and "re_match p (drop k s) = Some n"
    and "\<forall>k'<k. re_match p (drop k' s) = None"
  shows "re_search_from p s pos = Some (pos + k, pos + k + n)"
  using assms
proof (induction s arbitrary: k pos)
  case Nil
  then show ?case by simp
next
  case (Cons c cs)
  show ?case
  proof (cases k)
    case 0
    with Cons.prems show ?thesis by simp
  next
    case (Suc k0)
    then have none: "re_match p (c # cs) = None" using Cons.prems(3) by force
    have "re_search_from p cs (Suc pos) = Some (Suc pos + k0, Suc pos + k0 + n)"
    proof (rule Cons.IH)
      show "k0 \<le> length cs" using Cons.prems(1) Suc by simp
      show "re_match p (drop k0 cs) = Some n" using Cons.prems(2) Suc by simp
      show "\<forall>k'<k0. re_match p (drop k' cs) = None"
      proof (intro allI impI)
        fix k' assume "k' < k0"
        then have "Suc k' < k" using Suc by simp
        with Cons.prems(3) have "re_match p (drop (Suc k') (c # cs)) = None" by blast
        then show "re_match p (drop k' cs) = None" by simp
      qed
    qed
    with none Suc show ?thesis by simp
  qed
qed

lemma re_search_from_sound:
  assumes "re_search_from p s pos = Some (a, e)"
  shows "\<exists>k n. k \<le> length s \<and> a = pos + k \<and> e = pos + k + n \<and>
               re_match p (drop k s) = Some n \<and> (\<forall>k'<k. re_match p (drop k' s) = None)"
  using assms
proof (induction s arbitrary: pos)
  case Nil
  then show ?case by auto
next
  case (Cons c cs)
  show ?case
  proof (cases "re_match p (c # cs)")
    case (Some n)
    with Cons.prems have "a = pos" "e = pos + n" by simp_all
    with Some show ?thesis by (intro exI [of _ 0] exI [of _ n]) simp
  next
    case None
    with Cons.prems have "re_search_from p cs (Suc pos) = Some (a, e)" by simp
    from Cons.IH [OF this] obtain k n where kn: "k \<le> length cs" "a = Suc pos + k"
      "e = Suc pos + k + n" "re_match p (drop k cs) = Some n"
      "\<forall>k'<k. re_match p (drop k' cs) = None" by blast
    have "\<forall>k'<Suc k. re_match p (drop k' (c # cs)) = None"
    proof (intro allI impI)
      fix k' assume "k' < Suc k"
      then show "re_match p (drop k' (c # cs)) = None"
        using None kn(5) by (cases k') simp_all
    qed
    with kn show ?thesis by (intro exI [of _ "Suc k"] exI [of _ n]) simp
  qed
qed

lemma re_search_first:
  assumes "k \<le> length s" and "re_match p (drop k s) = Some n"
    and "\<forall>k'<k. re_match p (drop k' s) = None"
  shows "re_search p s = Some (k, k + n)"
  using re_search_from_first [OF assms, of 0] by (simp add: re_search_def)

lemma re_search_sound:
  assumes "re_search p s = Some (a, e)"
  shows "a \<le> length s \<and> a \<le> e \<and> e \<le> length s \<and> re_match p (drop a s) = Some (e - a) \<and>
         (\<forall>k'<a. re_match p (drop k' s) = None)"
proof -
  from assms obtain k n where kn: "k \<le> length s" "a = k" "e = k + n"
      "re_match p (drop k s) = Some n" "\<forall>k'<k. re_match p (drop k' s) = None"
    using re_search_from_sound [of p s 0 a e] by (auto simp: re_search_def)
  have "n \<le> length (drop k s)" using kn(4) by (rule re_match_bound)
  with kn show ?thesis by auto
qed

lemma re_search_literal_length:
  assumes "re_search p s = Some (a, e)" and "Lit l \<in> set p"
  shows "length l \<le> e"
proof -
  from re_search_sound [OF assms(1)] have "re_match p (drop a s) = Some (e - a)" by blast
  then have "length l \<le> e - a" using assms(2) by (rule re_match_literal_length)
  then show ?thesis by simp
qed

section \<open>No extractor raises\<close>

lemma fmb_no_error: "\<exists>r. find_matching_brace buf (int start) = Inr r"
proof (cases "\<exists>n. start + n < length buf \<and> closes_at buf start n")
  case True
  then show ?thesis using fmb_first_close by blast
next
  case False
  then have "find_matching_brace buf (int start) = Inr (- 1)"
    by (intro fmb_never_closes) blast
  then show ?thesis by blast
qed

lemma between_braces_no_error:
  assumes "0 < e"
  shows "\<exists>r. between_braces content e = Inr r"
proof -
  have eq: "int e - 1 = int (e - 1)" using assms by linarith
  obtain r where "find_matching_brace content (int (e - 1)) = Inr r"
    using fmb_no_error by blast
  then have "find_matching_brace content (int e - 1) = Inr r" by (simp only: eq)
  then show ?thesis by (simp add: between_braces_def Let_def)
qed

lemma template_loop_cases:
  assumes "0 < i"
  shows "template_loop content start (int i) = Inr None \<or>
         (\<exists>j. i \<le> j \<and> j < length content \<and> content ! j = backtick \<and>
              content ! (j - 1) \<noteq> backslash \<and>
              (comma \<in> set (take 9 (drop (Suc j) content)) \<or>
               rbrace \<in> set (take 9 (drop (Suc j) content))) \<and>
              template_loop content start (int i)
                = Inr (Some (unescape (py_slice content start (int j)))))"
  using assms
proof (induction "length content - i" arbitrary: i rule: less_induct)
  case less
  show ?case
  proof (cases "i < length content")
    case False
    then have "template_loop content start (int i) = Inr None"
      by (subst template_loop.simps) simp
    then show ?thesis by blast
  next
    case True
    note step = template_loop_step [OF less.prems True, of start]
    let ?P = "\<lambda>i'. template_loop content start (int i') = Inr None \<or>
         (\<exists>j. i' \<le> j \<and> j < length content \<and> content ! j = backtick \<and>
              content ! (j - 1) \<noteq> backslash \<and>
              (comma \<in> set (take 9 (drop (Suc j) content)) \<or>
               rbrace \<in> set (take 9 (drop (Suc j) content))) \<and>
              template_loop content start (int i')
                = Inr (Some (unescape (py_slice content start (int j)))))"
    have ih1: "?P (Suc i)" by (rule less.hyps) (use True in simp_all)
    have ih2: "?P (i + 2)" by (rule less.hyps) (use True in simp_all)
    show ?thesis
    proof (cases "take 2 (drop i content) = [backslash, backtick]")
      case pair: True
      then have "template_loop content start (int i) = template_loop content start (int (i + 2))"
        by (simp only: step if_True simp_thms)
      then have eq: "template_loop content start (int i) = template_loop content start (int (i + 2))" .
      from ih2 show ?thesis
      proof
        assume "template_loop content start (int (i + 2)) = Inr None"
        with eq show ?thesis by simp
      next
        assume "\<exists>j. i + 2 \<le> j \<and> j < length content \<and> content ! j = backtick \<and>
              content ! (j - 1) \<noteq> backslash \<and>
              (comma \<in> set (take 9 (drop (Suc j) content)) \<or>
               rbrace \<in> set (take 9 (drop (Suc j) content))) \<and>
              template_loop content start (int (i + 2))
                = Inr (Some (unescape (py_slice content start (int j))))"
        then obtain j where j: "i + 2 \<le> j" "j < length content" "content ! j = backtick"
              "content ! (j - 1) \<noteq> backslash"
              "comma \<in> set (take 9 (drop (Suc j) content)) \<or>
               rbrace \<in> set (take 9 (drop (Suc j) content))"
              "template_loop content start (int (i + 2))
                = Inr (Some (unescape (py_slice content start (int j))))" by blast
        have "i \<le> j" using j(1) by simp
        with j eq show ?thesis by (intro disjI2 exI [of _ j]) simp
      qed
    next
      case nopair: False
      show ?thesis
      proof (cases "content ! i = backtick \<and> content ! (i - 1) \<noteq> backslash \<and>
                    (comma \<in> set (take 9 (drop (Suc i) content)) \<or>
                     rbrace \<in> set (take 9 (drop (Suc i) content)))")
        case cand: True
        then have "template_loop content start (int i)
                = Inr (Some (unescape (py_slice content start (int i))))"
          by (simp only: step nopair if_False if_True simp_thms)
        with cand True show ?thesis by (intro disjI2 exI [of _ i]) simp
      next
        case nocand: False
        then have "template_loop content start (int i) = template_loop content start (int (Suc i))"
          by (simp only: step nopair if_False simp_thms)
        then have eq: "template_loop content start (int i) = template_loop content start (int (Suc i))" .
        from ih1 show ?thesis
        proof
          assume "template_loop content start (int (Suc i)) = Inr None"
          with eq show ?thesis by simp
        next
          assume "\<exists>j. Suc i \<le> j \<and> j < length content \<and> content ! j = backtick \<and>
              content ! (j - 1) \<noteq> backslash \<and>
              (comma \<in> set (take 9 (drop (Suc j) content)) \<or>
               rbrace \<in> set (take 9 (drop (Suc j) content))) \<and>
              template_loop content start (int (Suc i))
                = Inr (Some (unescape (py_slice content start (int j))))"
          then obtain j where j: "Suc i \<le> j" "j < length content" "content ! j = backtick"
              "content ! (j - 1) \<noteq> backslash"
              "comma \<in> set (take 9 (drop (Suc j) content)) \<or>
               rbrace \<in> set (take 9 (drop (Suc j) content))"
              "template_loop content start (int (Suc i))
                = Inr (Some (unescape (py_slice content start (int j))))" by blast
          have "i \<le> j" using j(1) by simp
          with j eq show ?thesis by (intro disjI2 exI [of _ j]) simp
        qed
      qed
    qed
  qed
qed

lemma template_loop_no_error:
  assumes "0 < i"
  shows "\<exists>r. template_loop content start (int i) = Inr r"
  using template_loop_cases [OF assms, of content start] by blast

lemma template_loop_found:
  assumes "0 < i" and "i \<le> j" and "j < length content" and "content ! j = backtick"
    and "content ! (j - 1) \<noteq> backslash"
    and "comma \<in> set (take 9 (drop (Suc j) content)) \<or>
         rbrace \<in> set (take 9 (drop (Suc j) content))"
  shows "\<exists>t. template_loop content start (int i) = Inr (Some t)"
  using assms(1,2)
proof (induction "j - i" arbitrary: i rule: less_induct)
  case less
  have il: "i < length content" using less.prems assms(3) by simp
  note step = template_loop_step [OF less.prems(1) il, of start]
  show ?case
  proof (cases "take 2 (drop i content) = [backslash, backtick]")
    case pair: True
    have "Suc i < length content"
    proof (rule ccontr)
      assume "\<not> Suc i < length content"
      then have "Suc i = length content" using il by simp
      then show False using escaped_pair_end pair by blast
    qed
    then have p: "content ! i = backslash" "content ! Suc i = backtick"
      using escaped_pair_nth pair by blast+
    have "i \<noteq> j" using p(1) assms(4) by (auto simp: backslash_def backtick_def)
    moreover have "Suc i \<noteq> j" using p(1) assms(5) by auto
    ultimately have le: "i + 2 \<le> j" using less.prems by simp
    have "template_loop content start (int i) = template_loop content start (int (i + 2))"
      using pair by (simp only: step if_True simp_thms)
    moreover have "\<exists>t. template_loop content start (int (i + 2)) = Inr (Some t)"
      by (rule less.hyps) (use le in simp_all)
    ultimately show ?thesis by simp
  next
    case nopair: False
    show ?thesis
    proof (cases "content ! i = backtick \<and> content ! (i - 1) \<noteq> backslash \<and>
                    (comma \<in> set (take 9 (drop (Suc i) content)) \<or>
                     rbrace \<in> set (take 9 (drop (Suc i) content)))")
      case True
      then have "template_loop content start (int i)
                = Inr (Some (unescape (py_slice content start (int i))))"
        by (simp only: step nopair if_False if_True simp_thms)
      then show ?thesis by blast
    next
      case False
      then have ne: "i \<noteq> j" using assms(4,5,6) by auto
      have "template_loop content start (int i) = template_loop content start (int (Suc i))"
        using False by (simp only: step nopair if_False simp_thms)
      moreover have "\<exists>t. template_loop content start (int (Suc i)) = Inr (Some t)"
        by (rule less.hyps) (use ne less.prems in simp_all)
      ultimately show ?thesis by simp
    qed
  qed
qed

lemma between_braces_not_found:
  "find_matching_brace content (int e - 1) = Inr (- 1) \<Longrightarrow> between_braces content e = Inr None"
  by (simp add: between_braces_def Let_def)

lemma extract_template_no_error: "\<exists>r. extract_template content = Inr r"
proof (cases "re_search template_pattern content")
  case None
  then show ?thesis by (simp add: extract_template_def)
next
  case (Some m)
  obtain s e where m: "m = (s, e)" by (cases m)
  have "length ''template:'' \<le> e"
    using Some unfolding m by (rule re_search_literal_length) (simp add: template_pattern_def)
  then have "0 < e" by simp
  then show ?thesis
    using Some m template_loop_no_error [of e content "int e"] by (simp add: extract_template_def)
qed

lemma brace_anchor_end_positive:
  assumes "re_search p content = Some (s, e)" and "Lit [lbrace] \<in> set p"
  shows "0 < e"
  using re_search_literal_length [OF assms] by simp

lemma extract_section_no_error: "\<exists>r. extract_section content name = Inr r"
proof (cases "re_search (section_pattern name) content")
  case None
  then show ?thesis by (simp add: extract_section_def)
next
  case (Some m)
  obtain s e where m: "m = (s, e)" by (cases m)
  have "0 < e"
    using Some unfolding m by (rule brace_anchor_end_positive) (simp add: section_pattern_def)
  then show ?thesis
    using Some m between_braces_no_error [of e content] by (simp add: extract_section_def)
qed

lemma extract_data_no_error: "\<exists>r. extract_data content = Inr r"
proof (cases "re_search data_pattern content")
  case None
  then show ?thesis by (simp add: extract_data_def)
next
  case (Some m)
  obtain s e where m: "m = (s, e)" by (cases m)
  have "0 < e"
    using Some unfolding m by (rule brace_anchor_end_positive) (simp add: data_pattern_def)
  then show ?thesis
    using Some m between_braces_no_error [of e content] by (simp add: extract_data_def)
qed

lemma extract_lifecycle_no_error: "\<exists>r. extract_lifecycle content name = Inr r"
proof (cases "re_search (lifecycle_pattern name) content")
  case None
  then show ?thesis by (simp add: extract_lifecycle_def)
next
  case (Some m)
  obtain s e where m: "m = (s, e)" by (cases m)
  have "0 < e"
    using Some unfolding m by (rule brace_anchor_end_positive) (simp add: lifecycle_pattern_def)
  then show ?thesis
    using Some m between_braces_no_error [of e content] by (simp add: extract_lifecycle_def)
qed

lemma fmb_depth_never_zero:
  assumes "\<forall>n\<in>{0..<length buf - start}. brace_depth buf start (Suc n) \<noteq> 0"
  shows "find_matching_brace buf (int start) = Inr (- 1)"
proof (rule fmb_never_closes, intro allI impI)
  fix n assume "start + n < length buf"
  then have "n \<in> {0..<length buf - start}" by simp
  with assms have "brace_depth buf start (Suc n) \<noteq> 0" by blast
  then show "\<not> closes_at buf start n" by (simp add: closes_at_def)
qed

lemma extract_template_no_terminator:
  assumes "re_search template_pattern content = Some (s, e)"
    and "\<forall>j\<in>{e..<length content}. content ! j = backtick \<and> content ! (j - 1) \<noteq> backslash
           \<longrightarrow> \<not> (comma \<in> set (take 9 (drop (Suc j) content)) \<or>
                   rbrace \<in> set (take 9 (drop (Suc j) content)))"
  shows "extract_template content = Inr None"
proof -
  have "length ''template:'' \<le> e"
    using assms(1) by (rule re_search_literal_length) (simp add: template_pattern_def)
  then have e: "0 < e" by simp
  have "template_loop content (int e) (int e) = Inr None"
    using template_loop_cases [OF e, of content "int e"] assms(2) by auto
  then show ?thesis using assms(1) by (simp add: extract_template_def)
qed

text \<open>
  C9. When the depth never comes back to zero before the buffer ends,
  \<open>find_matching_brace\<close> returns \<open>-1\<close> and does not raise. When it returns \<open>-1\<close> at the
  opening brace of an anchor, \<open>extract_section\<close>, \<open>extract_data\<close> and
  \<open>extract_lifecycle\<close> return \<open>None\<close>; when no backtick after the template anchor is
  a valid closing one, \<open>extract_template\<close> returns \<open>None\<close>. No extractor raises on
  any buffer, for the section keys and the hook that the program passes.
\<close>

theorem not_found_is_absent:
  "((\<forall>n\<in>{0..<length buf - start}. brace_depth buf start (Suc n) \<noteq> 0)
      \<longrightarrow> find_matching_brace buf (int start) = Inr (- 1)) \<and>
   (re_search (section_pattern key) content = Some (s1, e1) \<and>
    find_matching_brace content (int e1 - 1) = Inr (- 1)
      \<longrightarrow> extract_section content key = Inr None) \<and>
   (re_search data_pattern content = Some (s2, e2) \<and>
    find_matching_brace content (int e2 - 1) = Inr (- 1)
      \<longrightarrow> extract_data content = Inr None) \<and>
   (re_search (lifecycle_pattern h) content = Some (s3, e3) \<and>
    find_matching_brace content (int e3 - 1) = Inr (- 1)
      \<longrightarrow> extract_lifecycle content h = Inr None) \<and>
   (re_search template_pattern content = Some (s4, e4) \<and>
    (\<forall>j\<in>{e4..<length content}. content ! j = backtick \<and> content ! (j - 1) \<noteq> backslash
        \<longrightarrow> \<not> (comma \<in> set (take 9 (drop (Suc j) content)) \<or>
                rbrace \<in> set (take 9 (drop (Suc j) content))))
      \<longrightarrow> extract_template content = Inr None) \<and>
   (\<forall>err. extract_template content \<noteq> Inl err \<and> extract_section content key \<noteq> Inl err \<and>
          extract_data content \<noteq> Inl err \<and> extract_lifecycle content h \<noteq> Inl err)"
proof (intro conjI impI allI)
  assume "\<forall>n\<in>{0..<length buf - start}. brace_depth buf start (Suc n) \<noteq> 0"
  then show "find_matching_brace buf (int start) = Inr (- 1)" by (rule fmb_depth_never_zero)
next
  assume "re_search (section_pattern key) content = Some (s1, e1) \<and>
    find_matching_brace content (int e1 - 1) = Inr (- 1)"
  then show "extract_section content key = Inr None"
    by (simp add: extract_section_def between_braces_not_found)
next
  assume "re_search data_pattern content = Some (s2, e2) \<and>
    find_matching_brace content (int e2 - 1) = Inr (- 1)"
  then show "extract_data content = Inr None"
    by (simp add: extract_data_def between_braces_not_found)
next
  assume "re_search (lifecycle_pattern h) content = Some (s3, e3) \<and>
    find_matching_brace content (int e3 - 1) = Inr (- 1)"
  then show "extract_lifecycle content h = Inr None"
    by (simp add: extract_lifecycle_def between_braces_not_found)
next
  assume "re_search template_pattern content = Some (s4, e4) \<and>
    (\<forall>j\<in>{e4..<length content}. content ! j = backtick \<and> content ! (j - 1) \<noteq> backslash
        \<longrightarrow> \<not> (comma \<in> set (take 9 (drop (Suc j) content)) \<or>
                rbrace \<in> set (take 9 (drop (Suc j) content))))"
  then show "extract_template content = Inr None"
    using extract_template_no_terminator by blast
next
  fix err
  show "extract_template content \<noteq> Inl err"
    using extract_template_no_error [of content] by auto
  show "extract_section content key \<noteq> Inl err"
    using extract_section_no_error [of content key] by auto
  show "extract_data content \<noteq> Inl err"
    using extract_data_no_error [of content] by auto
  show "extract_lifecycle content h \<noteq> Inl err"
    using extract_lifecycle_no_error [of content h] by auto
qed

theorem not_found_is_absent_witness:
  "find_matching_brace ''{a'' (int 0) = Inr (- 1) \<and>
   extract_section ''methods: { data() { return { mounted() {'' Methods = Inr None \<and>
   extract_data ''methods: { data() { return { mounted() {'' = Inr None \<and>
   extract_lifecycle ''methods: { data() { return { mounted() {'' Mounted = Inr None \<and>
   extract_template (''template:'' @ [backslash, backtick] @ ''x'') = Inr None"
proof -
  let ?c = "''methods: { data() { return { mounted() {''"
  let ?t = "''template:'' @ [backslash, backtick] @ ''x''"
  have d: "\<forall>n\<in>{0..<length ''{a'' - 0}. brace_depth ''{a'' 0 (Suc n) \<noteq> 0" by code_simp
  have r1: "re_search (section_pattern Methods) ?c = Some (0, 10)" by code_simp
  have r2: "re_search data_pattern ?c = Some (11, 28)" by code_simp
  have r3: "re_search (lifecycle_pattern Mounted) ?c = Some (29, 40)" by code_simp
  have r4: "re_search template_pattern ?t = Some (0, 11)" by code_simp
  have f1: "find_matching_brace ?c (int 10 - 1) = Inr (- 1)" by code_simp
  have f2: "find_matching_brace ?c (int 28 - 1) = Inr (- 1)" by code_simp
  have f3: "find_matching_brace ?c (int 40 - 1) = Inr (- 1)" by code_simp
  have t: "\<forall>j\<in>{11..<length ?t}. ?t ! j = backtick \<and> ?t ! (j - 1) \<noteq> backslash
        \<longrightarrow> \<not> (comma \<in> set (take 9 (drop (Suc j) ?t)) \<or>
                rbrace \<in> set (take 9 (drop (Suc j) ?t)))"
  proof (intro ballI impI)
    fix j
    assume "j \<in> {11..<length ?t}" and b: "?t ! j = backtick \<and> ?t ! (j - 1) \<noteq> backslash"
    then have "j = 11" by simp
    with b show "\<not> (comma \<in> set (take 9 (drop (Suc j) ?t)) \<or>
                rbrace \<in> set (take 9 (drop (Suc j) ?t)))"
      by (simp add: backtick_def)
  qed
  note n = not_found_is_absent [of "''{a''" 0 Methods ?c 0 10 11 28 Mounted 29 40]
  note m = not_found_is_absent [of _ _ _ ?t _ _ _ _ _ _ _ 0 11]
  have "find_matching_brace ''{a'' (int 0) = Inr (- 1)"
    using n [THEN conjunct1] d by (rule mp)
  moreover have "extract_section ?c Methods = Inr None"
    using n [THEN conjunct2, THEN conjunct1] conjI [OF r1 f1] by (rule mp)
  moreover have "extract_data ?c = Inr None"
    using n [THEN conjunct2, THEN conjunct2, THEN conjunct1] conjI [OF r2 f2] by (rule mp)
  moreover have "extract_lifecycle ?c Mounted = Inr None"
    using n [THEN conjunct2, THEN conjunct2, THEN conjunct2, THEN conjunct1] conjI [OF r3 f3]
    by (rule mp)
  moreover have "extract_template ?t = Inr None"
    using m [THEN conjunct2, THEN conjunct2, THEN conjunct2, THEN conjunct2, THEN conjunct1]
      conjI [OF r4 t] by (rule mp)
  ultimately show ?thesis by (intro conjI)
qed

section \<open>Unescaping removes the backslash of an escaped character\<close>









section \<open>The template extractor on a literal whose backticks are escaped\<close>

lemma template_loop_terminates:
  assumes "0 < i" and "i \<le> j" and "j < length content"
    and "\<forall>k. i \<le> k \<and> k < j \<and> content ! k = backtick \<longrightarrow> content ! (k - 1) = backslash"
    and "content ! j = backtick" and "content ! (j - 1) \<noteq> backslash"
    and "comma \<in> set (take 9 (drop (Suc j) content)) \<or>
         rbrace \<in> set (take 9 (drop (Suc j) content))"
  shows "template_loop content start (int i)
         = Inr (Some (unescape (py_slice content start (int j))))"
proof -
  have j0: "0 < j" using assms(1,2) by simp
  have skip: "template_loop content start (int i) = template_loop content start (int j)"
    using assms(2,1,3,4) assms(6) by (intro template_loop_skip) auto
  have step: "template_loop content start (int j) =
           (if take 2 (drop j content) = [backslash, backtick]
            then template_loop content start (int (j + 2))
            else if content ! j = backtick \<and> content ! (j - 1) \<noteq> backslash \<and>
                    (comma \<in> set (take 9 (drop (Suc j) content)) \<or>
                     rbrace \<in> set (take 9 (drop (Suc j) content)))
            then Inr (Some (unescape (py_slice content start (int j))))
            else template_loop content start (int (Suc j)))"
    using j0 assms(3) by (rule template_loop_step)
  have nopair: "take 2 (drop j content) \<noteq> [backslash, backtick]"
  proof (cases "Suc j < length content")
    case True
    then show ?thesis using escaped_pair_nth [OF True] assms(5)
      by (simp add: backslash_def backtick_def)
  next
    case False
    then have "Suc j = length content" using assms(3) by simp
    then show ?thesis by (rule escaped_pair_end)
  qed
  show ?thesis
    using assms(5,6,7) by (simp only: skip step nopair if_False if_True simp_thms)
qed

lemma extract_template_literal:
  assumes "re_search template_pattern content = Some (s, length pre + 2)"
    and "content = pre @ [backslash, backtick] @ raw @ [backtick] @ after"
    and "\<forall>k<length raw. raw ! k = backtick \<longrightarrow> 0 < k \<and> raw ! (k - 1) = backslash"
    and "raw = [] \<or> last raw \<noteq> backslash"
    and "comma \<in> set (take 9 after) \<or> rbrace \<in> set (take 9 after)"
  shows "extract_template content = Inr (Some (unescape raw))"
proof -
  let ?e = "length pre + 2" and ?j = "length pre + 2 + length raw"
  have at: "\<And>k. k < length raw \<Longrightarrow> content ! (?e + k) = raw ! k"
    unfolding assms(2) by (simp add: nth_append)
  have cls: "content ! ?j = backtick"
    unfolding assms(2) by (simp add: nth_append)
  have opn: "content ! (?e - 1) = backtick"
    unfolding assms(2) by (simp add: nth_append)
  have before: "content ! (?j - 1) \<noteq> backslash"
  proof (cases "raw = []")
    case True
    then show ?thesis using opn by (simp add: backtick_def backslash_def)
  next
    case False
    then have "content ! (?e + (length raw - 1)) = raw ! (length raw - 1)"
      by (intro at) simp
    moreover have "?e + (length raw - 1) = ?j - 1" using False by (cases raw) simp_all
    ultimately have "content ! (?j - 1) = last raw"
      using False by (simp add: last_conv_nth)
    with False assms(4) show ?thesis by simp
  qed
  have escaped: "\<forall>k. ?e \<le> k \<and> k < ?j \<and> content ! k = backtick \<longrightarrow> content ! (k - 1) = backslash"
  proof (intro allI impI)
    fix k assume k: "?e \<le> k \<and> k < ?j \<and> content ! k = backtick"
    define m where "m = k - ?e"
    have km: "k = ?e + m" using k unfolding m_def by linarith
    have m: "m < length raw" using k unfolding m_def by linarith
    have "raw ! m = backtick" using at [OF m] k km by simp
    with assms(3) m have m0: "0 < m" and prev: "raw ! (m - 1) = backslash" by auto
    have "content ! (?e + (m - 1)) = raw ! (m - 1)" by (intro at) (use m in simp)
    moreover have "?e + (m - 1) = k - 1" using km m0 by simp
    ultimately show "content ! (k - 1) = backslash" using prev by simp
  qed
  have look: "comma \<in> set (take 9 (drop (Suc ?j) content)) \<or>
              rbrace \<in> set (take 9 (drop (Suc ?j) content))"
  proof -
    have "content = (pre @ [backslash, backtick] @ raw @ [backtick]) @ after"
      using assms(2) by simp
    moreover have "Suc ?j = length (pre @ [backslash, backtick] @ raw @ [backtick])" by simp
    ultimately have "drop (Suc ?j) content = after" by (metis append_eq_conv_conj)
    with assms(5) show ?thesis by (simp only:)
  qed
  have "template_loop content (int ?e) (int ?e)
         = Inr (Some (unescape (py_slice content (int ?e) (int ?j))))"
  proof (rule template_loop_terminates)
    show "0 < ?e" by simp
    show "?e \<le> ?j" by simp
    show "?j < length content" unfolding assms(2) by simp
  qed (rule escaped cls before look)+
  moreover have "py_slice content (int ?e) (int ?j) = raw"
  proof -
    have "content = (pre @ [backslash, backtick]) @ (raw @ [backtick] @ after)"
      using assms(2) by simp
    moreover have "?e = length (pre @ [backslash, backtick])" by simp
    ultimately have "drop ?e content = raw @ [backtick] @ after"
      by (metis append_eq_conv_conj)
    moreover have "?j - ?e = length raw" by simp
    ultimately show ?thesis unfolding py_slice_nat by (simp only: take_append take_all_iff) simp
  qed
  ultimately show ?thesis
    using assms(1) by (simp add: extract_template_def)
qed

section \<open>The scanner inside a larger buffer\<close>

lemma fmb_closes_iff:
  "find_matching_brace buf (int start) = Inr (int j) \<longleftrightarrow>
     (\<exists>n. j = start + n \<and> start + n < length buf \<and> closes_at buf start n \<and>
          (\<forall>m<n. \<not> closes_at buf start m))"
proof
  assume r: "find_matching_brace buf (int start) = Inr (int j)"
  show "\<exists>n. j = start + n \<and> start + n < length buf \<and> closes_at buf start n \<and>
          (\<forall>m<n. \<not> closes_at buf start m)"
  proof (cases "\<exists>n. start + n < length buf \<and> closes_at buf start n")
    case True
    then obtain n where n: "start + n < length buf" "closes_at buf start n"
      "\<forall>m<n. \<not> closes_at buf start m"
      "find_matching_brace buf (int start) = Inr (int (start + n))"
      using fmb_first_close by blast
    with r have "j = start + n" by simp
    with n show ?thesis by blast
  next
    case False
    then have "find_matching_brace buf (int start) = Inr (- 1)"
      by (intro fmb_never_closes) blast
    with r show ?thesis by simp
  qed
next
  assume "\<exists>n. j = start + n \<and> start + n < length buf \<and> closes_at buf start n \<and>
          (\<forall>m<n. \<not> closes_at buf start m)"
  then show "find_matching_brace buf (int start) = Inr (int j)"
    using fmb_closes by blast
qed

lemma embedded_nth:
  assumes "x < length t"
  shows "(pre @ t @ rest) ! (length pre + x) = t ! x"
  using assms by (simp add: nth_append)

lemma quote_state_embedded:
  assumes "pre = [] \<or> 0 < s0" and "s0 + k \<le> length t"
  shows "quote_state (pre @ t @ rest) (length pre + s0) k = quote_state t s0 k"
  using assms(2)
proof (induction k)
  case 0
  then show ?case by simp
next
  case (Suc k)
  then have ih: "quote_state (pre @ t @ rest) (length pre + s0) k = quote_state t s0 k"
    and lt: "s0 + k < length t" by simp_all
  have cur: "(pre @ t @ rest) ! (length pre + s0 + k) = t ! (s0 + k)"
    using embedded_nth [OF lt, of pre rest] by (simp add: add.assoc)
  have esc: "(length pre + s0 + k = 0 \<or> (pre @ t @ rest) ! (length pre + s0 + k - 1) \<noteq> backslash)
      \<longleftrightarrow> (s0 + k = 0 \<or> t ! (s0 + k - 1) \<noteq> backslash)"
  proof (cases "s0 + k = 0")
    case True
    with assms(1) have "pre = []" by simp
    with True show ?thesis by simp
  next
    case False
    then have "s0 + k - 1 < length t" using lt by simp
    then have "(pre @ t @ rest) ! (length pre + (s0 + k - 1)) = t ! (s0 + k - 1)"
      by (rule embedded_nth)
    moreover have "length pre + (s0 + k - 1) = length pre + s0 + k - 1" using False by linarith
    ultimately show ?thesis using False by auto
  qed
  show ?case
    by (simp only: quote_state.simps Let_def ih cur esc)
qed

lemma brace_depth_embedded:
  assumes "pre = [] \<or> 0 < s0" and "s0 + k \<le> length t"
  shows "brace_depth (pre @ t @ rest) (length pre + s0) k = brace_depth t s0 k"
  using assms(2)
proof (induction k)
  case 0
  then show ?case by simp
next
  case (Suc k)
  then have ih: "brace_depth (pre @ t @ rest) (length pre + s0) k = brace_depth t s0 k"
    and lt: "s0 + k < length t" by simp_all
  have cur: "(pre @ t @ rest) ! (length pre + s0 + k) = t ! (s0 + k)"
    using embedded_nth [OF lt, of pre rest] by (simp add: add.assoc)
  have q: "quote_state (pre @ t @ rest) (length pre + s0) (Suc k) = quote_state t s0 (Suc k)"
    by (rule quote_state_embedded [OF assms(1)]) (use Suc.prems in simp)
  show ?case
    by (simp only: brace_depth.simps Let_def ih cur q)
qed

lemma closes_at_embedded:
  assumes "pre = [] \<or> 0 < s0" and "s0 + k < length t"
  shows "closes_at (pre @ t @ rest) (length pre + s0) k \<longleftrightarrow> closes_at t s0 k"
proof -
  have cur: "(pre @ t @ rest) ! (length pre + s0 + k) = t ! (s0 + k)"
    using embedded_nth [OF assms(2), of pre rest] by (simp add: add.assoc)
  have q: "quote_state (pre @ t @ rest) (length pre + s0) (Suc k) = quote_state t s0 (Suc k)"
    by (rule quote_state_embedded [OF assms(1)]) (use assms(2) in simp)
  have d: "brace_depth (pre @ t @ rest) (length pre + s0) (Suc k) = brace_depth t s0 (Suc k)"
    by (rule brace_depth_embedded [OF assms(1)]) (use assms(2) in simp)
  show ?thesis unfolding closes_at_def by (simp only: cur q d)
qed

lemma fmb_embedded:
  assumes "find_matching_brace t (int s0) = Inr (int j)" and "pre = [] \<or> 0 < s0"
  shows "find_matching_brace (pre @ t @ rest) (int (length pre + s0)) = Inr (int (length pre + j))"
proof -
  from assms(1) obtain n where n: "j = s0 + n" "s0 + n < length t" "closes_at t s0 n"
    "\<forall>m<n. \<not> closes_at t s0 m"
    unfolding fmb_closes_iff by blast
  have "find_matching_brace (pre @ t @ rest) (int (length pre + s0))
      = Inr (int (length pre + s0 + n))"
  proof (rule fmb_closes)
    show "length pre + s0 + n < length (pre @ t @ rest)" using n(2) by simp
    show "closes_at (pre @ t @ rest) (length pre + s0) n"
      using closes_at_embedded [OF assms(2) n(2)] n(3) by blast
    show "\<forall>m<n. \<not> closes_at (pre @ t @ rest) (length pre + s0) m"
    proof (intro allI impI)
      fix m assume m: "m < n"
      then have "s0 + m < length t" using n(2) by simp
      from closes_at_embedded [OF assms(2) this] n(4) m
      show "\<not> closes_at (pre @ t @ rest) (length pre + s0) m" by blast
    qed
  qed
  then show ?thesis using n(1) by (simp add: add.assoc)
qed

section \<open>The quote rule of the scanner\<close>





section \<open>What the extractors return\<close>


lemma fmb_result_cases:
  "find_matching_brace buf (int start) = Inr (- 1) \<or>
   (\<exists>n. find_matching_brace buf (int start) = Inr (int (start + n)))"
proof (cases "\<exists>n. start + n < length buf \<and> closes_at buf start n")
  case True
  then show ?thesis using fmb_first_close by blast
next
  case False
  then have "find_matching_brace buf (int start) = Inr (- 1)"
    by (intro fmb_never_closes) blast
  then show ?thesis by blast
qed

lemma between_braces_result:
  assumes "between_braces content e = Inr (Some u)" and "0 < e"
  shows "\<exists>j. find_matching_brace content (int e - 1) = Inr (int j) \<and>
             u = take (j - e) (drop e content)"
proof -
  have ie: "int e - 1 = int (e - 1)" using assms(2) by linarith
  from fmb_result_cases [of content "e - 1"]
  have "find_matching_brace content (int e - 1) = Inr (- 1) \<or>
   (\<exists>n. find_matching_brace content (int e - 1) = Inr (int (e - 1 + n)))"
    by (simp only: ie)
  then show ?thesis
  proof
    assume "find_matching_brace content (int e - 1) = Inr (- 1)"
    with assms(1) show ?thesis by (simp add: between_braces_def Let_def)
  next
    assume "\<exists>n. find_matching_brace content (int e - 1) = Inr (int (e - 1 + n))"
    then obtain n where n: "find_matching_brace content (int e - 1) = Inr (int (e - 1 + n))"
      by blast
    have "int (e - 1 + n) \<noteq> - 1" by linarith
    with assms(1) n have "u = py_slice content (int e - 1 + 1) (int (e - 1 + n))"
      by (simp add: between_braces_def Let_def del: of_nat_add)
    moreover have "int e - 1 + 1 = int e" by simp
    ultimately have "u = take (e - 1 + n - e) (drop e content)"
      by (simp only: py_slice_nat)
    with n show ?thesis by blast
  qed
qed

lemma extract_section_result:
  assumes "extract_section content key = Inr (Some u)"
  shows "\<exists>s e j. re_search (section_pattern key) content = Some (s, e) \<and>
           find_matching_brace content (int e - 1) = Inr (int j) \<and>
           u = take (j - e) (drop e content)"
proof (cases "re_search (section_pattern key) content")
  case None
  with assms show ?thesis by (simp add: extract_section_def)
next
  case (Some m)
  obtain s e where m: "m = (s, e)" by (cases m)
  have e: "0 < e"
    using Some unfolding m by (rule brace_anchor_end_positive) (simp add: section_pattern_def)
  have "between_braces content e = Inr (Some u)"
    using assms Some m by (simp add: extract_section_def)
  from between_braces_result [OF this e] Some m show ?thesis by blast
qed

lemma extract_data_result:
  assumes "extract_data content = Inr (Some u)"
  shows "\<exists>s e j. re_search data_pattern content = Some (s, e) \<and>
           find_matching_brace content (int e - 1) = Inr (int j) \<and>
           u = take (j - e) (drop e content)"
proof (cases "re_search data_pattern content")
  case None
  with assms show ?thesis by (simp add: extract_data_def)
next
  case (Some m)
  obtain s e where m: "m = (s, e)" by (cases m)
  have e: "0 < e"
    using Some unfolding m by (rule brace_anchor_end_positive) (simp add: data_pattern_def)
  have "between_braces content e = Inr (Some u)"
    using assms Some m by (simp add: extract_data_def)
  from between_braces_result [OF this e] Some m show ?thesis by blast
qed






section \<open>Where the template anchor matches\<close>

lemma re_match_spaces_literal:
  assumes "\<forall>c\<in>set ws. is_space c" and "l \<noteq> []" and "\<not> is_space (hd l)"
  shows "re_match [Spaces, Lit l] (ws @ l @ x) = Some (length ws + length l)"
  using assms(1)
proof (induction ws)
  case Nil
  obtain c cs where l: "l = c # cs" using assms(2) by (cases l) auto
  then have "\<not> is_space c" using assms(3) by simp
  then show ?case using l by simp
next
  case (Cons c ws)
  then show ?case by simp
qed

lemma template_anchor_matches:
  assumes "\<forall>c\<in>set ws. is_space c"
  shows "re_match template_pattern (''template:'' @ ws @ [backslash, backtick] @ x)
         = Some (9 + length ws + 2)"
proof -
  have "\<not> is_space backslash" by (simp add: is_space_def backslash_def)
  then have "re_match [Spaces, Lit [backslash, backtick]] (ws @ [backslash, backtick] @ x)
      = Some (length ws + length [backslash, backtick])"
    using assms by (intro re_match_spaces_literal) simp_all
  then show ?thesis by (simp add: template_pattern_def)
qed

lemma re_match_spaces_literal_shape:
  assumes "re_match [Spaces, Lit l] y = Some m"
  shows "\<exists>w. m = w + length l \<and> (\<forall>i<w. is_space (y ! i)) \<and> take (length l) (drop w y) = l"
  using assms
proof (induction y arbitrary: m)
  case Nil
  then show ?case by (auto split: if_splits)
next
  case (Cons c cs)
  show ?case
  proof (cases "is_space c \<and> re_match [Spaces, Lit l] cs \<noteq> None")
    case True
    then obtain n where n: "re_match [Spaces, Lit l] cs = Some n" by auto
    with True Cons.prems have m: "m = Suc n" by simp
    from Cons.IH [OF n] obtain w where w: "n = w + length l" "\<forall>i<w. is_space (cs ! i)"
      "take (length l) (drop w cs) = l" by blast
    have "\<forall>i<Suc w. is_space ((c # cs) ! i)"
    proof (intro allI impI)
      fix i assume "i < Suc w"
      then show "is_space ((c # cs) ! i)" using True w(2) by (cases i) simp_all
    qed
    with w m show ?thesis by (intro exI [of _ "Suc w"]) simp
  next
    case False
    with Cons.prems have "re_match [Lit l] (c # cs) = Some m"
      by (auto split: if_splits option.splits)
    then have "take (length l) (c # cs) = l" "m = length l"
      by (auto split: if_splits)
    then show ?thesis by (intro exI [of _ 0]) simp
  qed
qed

lemma re_match_literal_first:
  assumes "re_match (Lit l # r) y = Some n"
  shows "take (length l) y = l \<and> (\<exists>m. re_match r (drop (length l) y) = Some m \<and> n = length l + m)"
  using assms by (auto split: if_splits)

lemma template_anchor_shape:
  assumes "re_match template_pattern y = Some n"
  shows "\<exists>w. n = 9 + w + 2 \<and> take 9 y = ''template:'' \<and>
             (\<forall>i<w. is_space (y ! (9 + i))) \<and>
             y ! (9 + w) = backslash \<and> y ! (9 + w + 1) = backtick \<and> n \<le> length y"
proof -
  have nine: "length ''template:'' = 9" by simp
  from assms have "re_match (Lit ''template:'' # [Spaces, Lit [backslash, backtick]]) y = Some n"
    by (simp only: template_pattern_def)
  from re_match_literal_first [OF this]
  obtain m where t: "take 9 y = ''template:''"
    and m: "re_match [Spaces, Lit [backslash, backtick]] (drop 9 y) = Some m" "n = 9 + m"
    unfolding nine by blast
  from re_match_spaces_literal_shape [OF m(1)] obtain w where
    w: "m = w + length [backslash, backtick]" "\<forall>i<w. is_space (drop 9 y ! i)"
      "take (length [backslash, backtick]) (drop w (drop 9 y)) = [backslash, backtick]"
    by blast
  have two: "length [backslash, backtick] = 2" by simp
  have len: "n \<le> length y" using assms by (rule re_match_bound)
  then have l9: "9 + w + 2 \<le> length y" using m(2) w(1) by simp
  have sp: "\<forall>i<w. is_space (y ! (9 + i))"
  proof (intro allI impI)
    fix i assume i: "i < w"
    then have "drop 9 y ! i = y ! (9 + i)" using l9 by simp
    with w(2) i show "is_space (y ! (9 + i))" by auto
  qed
  have "take 2 (drop (9 + w) y) = [backslash, backtick]"
    using w(3) unfolding two by (simp add: add.commute)
  moreover have "Suc (9 + w) < length y" using l9 by simp
  ultimately have "y ! (9 + w) = backslash \<and> y ! Suc (9 + w) = backtick"
    using escaped_pair_nth [of "9 + w" y] by blast
  with t sp len m(2) w(1) show ?thesis by (intro exI [of _ w]) simp
qed

lemma re_search_at_or_before:
  assumes "k \<le> length c" and "re_match p (drop k c) = Some n"
  shows "\<exists>s e. re_search p c = Some (s, e) \<and> s \<le> k"
proof -
  define P where "P = (\<lambda>i. i \<le> length c \<and> re_match p (drop i c) \<noteq> None)"
  define s where "s = (LEAST i. P i)"
  have "P k" using assms by (simp add: P_def)
  then have Ps: "P s" and sk: "s \<le> k" unfolding s_def by (rule LeastI, rule Least_le)
  have first: "\<forall>i<s. re_match p (drop i c) = None"
  proof (intro allI impI)
    fix i assume i: "i < s"
    then have "\<not> P i" unfolding s_def by (rule not_less_Least)
    moreover have "i \<le> length c" using i Ps by (simp add: P_def)
    ultimately show "re_match p (drop i c) = None" by (simp add: P_def)
  qed
  from Ps obtain m where "re_match p (drop s c) = Some m" by (auto simp: P_def)
  with Ps first have "re_search p c = Some (s, s + m)"
    by (intro re_search_first) (simp_all add: P_def)
  with sk show ?thesis by blast
qed

lemma backtick_not_space: "\<not> is_space backtick"
  by (simp add: is_space_def backtick_def)

lemma template_anchor_found:
  assumes "content = pre @ ''template:'' @ ws @ [backslash, backtick] @ body @ [backtick] @ after"
    and "\<forall>c\<in>set ws. is_space c"
    and "body = [] \<or> last body \<noteq> backslash"
  defines "j \<equiv> length pre + 9 + length ws + 2 + length body"
  shows "\<exists>s e. re_search template_pattern content = Some (s, e) \<and> 0 < e \<and> e \<le> j \<and>
           j < length content \<and> content ! j = backtick \<and> content ! (j - 1) \<noteq> backslash \<and>
           drop (Suc j) content = after"
proof -
  let ?P = "length pre"
  have split: "content = (pre @ ''template:'' @ ws @ [backslash, backtick] @ body) @ [backtick] @ after"
    using assms(1) by simp
  have jlen: "j = length (pre @ ''template:'' @ ws @ [backslash, backtick] @ body)"
    by (simp add: j_def)
  have jl: "j < length content" unfolding split jlen by simp
  have cj: "content ! j = backtick" unfolding split jlen by (simp add: nth_append)
  have after: "drop (Suc j) content = after"
  proof -
    have "content = ((pre @ ''template:'' @ ws @ [backslash, backtick] @ body) @ [backtick]) @ after"
      using assms(1) by simp
    moreover have "Suc j = length ((pre @ ''template:'' @ ws @ [backslash, backtick] @ body) @ [backtick])"
      by (simp add: j_def)
    ultimately show ?thesis by (metis append_eq_conv_conj)
  qed
  have prev: "content ! (j - 1) \<noteq> backslash"
  proof (cases "body = []")
    case True
    then have "content = (pre @ ''template:'' @ ws @ [backslash]) @ backtick # [backtick] @ after"
      using assms(1) by simp
    moreover have "j - 1 = length (pre @ ''template:'' @ ws @ [backslash])"
      using True by (simp add: j_def)
    ultimately have "content ! (j - 1) = backtick" by (metis nth_append_length)
    then show ?thesis by (simp add: backtick_def backslash_def)
  next
    case False
    then obtain b0 l where b: "body = b0 @ [l]" by (metis rev_exhaust)
    then have "content = (pre @ ''template:'' @ ws @ [backslash, backtick] @ b0) @ l # [backtick] @ after"
      using assms(1) by simp
    moreover have "j - 1 = length (pre @ ''template:'' @ ws @ [backslash, backtick] @ b0)"
      using b by (simp add: j_def)
    ultimately have "content ! (j - 1) = l" by (metis nth_append_length)
    with assms(3) b show ?thesis by simp
  qed
  have "drop ?P content = ''template:'' @ ws @ [backslash, backtick] @ (body @ [backtick] @ after)"
    using assms(1) by simp
  then have here: "re_match template_pattern (drop ?P content) = Some (9 + length ws + 2)"
    using template_anchor_matches [OF assms(2)] by simp
  have "?P \<le> length content" using assms(1) by simp
  from re_search_at_or_before [OF this here]
  obtain s e where se: "re_search template_pattern content = Some (s, e)" "s \<le> ?P" by blast
  from re_search_sound [OF se(1)]
  have m: "re_match template_pattern (drop s content) = Some (e - s)" and sle: "s \<le> e"
    and el: "e \<le> length content" by blast+
  from template_anchor_shape [OF m] obtain w where
    w: "e - s = 9 + w + 2" "\<forall>i<w. is_space (drop s content ! (9 + i))"
      "drop s content ! (9 + w) = backslash" "drop s content ! (9 + w + 1) = backtick"
    by blast
  have e: "e = s + 9 + w + 2" using w(1) sle by simp
  have at: "\<And>x. s + x < length content \<Longrightarrow> drop s content ! x = content ! (s + x)"
    by simp
  have "e \<le> j"
  proof (rule ccontr)
    assume "\<not> e \<le> j"
    then have je: "j < e" by simp
    have js: "s + 11 \<le> j" using se(2) by (simp add: j_def)
    define x where "x = j - s"
    have x: "j = s + x" "11 \<le> x" "x < 9 + w + 2" using js je e by (simp_all add: x_def)
    have inr: "\<And>y. y < 9 + w + 2 \<Longrightarrow> s + y < length content" using e el by simp
    consider "x = 9 + w + 1" | "x = 9 + w" | "x < 9 + w" using x(3) by linarith
    then show False
    proof cases
      case 1
      then have "j - 1 = s + (9 + w)" using x(1) by simp
      moreover have "drop s content ! (9 + w) = content ! (s + (9 + w))"
        by (rule at) (rule inr, simp)
      ultimately show False using w(3) prev by simp
    next
      case 2
      have "drop s content ! (9 + w) = content ! (s + (9 + w))"
        by (rule at) (rule inr, simp)
      with 2 x(1) w(3) cj show False by (simp add: backtick_def backslash_def)
    next
      case 3
      define i where "i = x - 9"
      have i: "x = 9 + i" "i < w" using 3 x(2) by (simp_all add: i_def)
      have "drop s content ! (9 + i) = content ! (s + (9 + i))"
        by (rule at) (rule inr, use i in simp)
      with w(2) i x(1) cj have "is_space backtick" by auto
      then show False using backtick_not_space by simp
    qed
  qed
  moreover have "0 < e" using e by simp
  ultimately show ?thesis using se(1) jl cj prev after by blast
qed

text \<open>
  C3, as stated, fails: the anchor pattern asks for a backslash before the opening
  backtick, so on this buffer, whose \<open>template:\<close> key is followed by a plain
  backtick-delimited literal, the extractor returns \<open>None\<close>.
\<close>

theorem template_plain_backtick_absent:
  "extract_template (''template: '' @ [backtick] @ ''<div></div>'' @ [backtick, comma])
   = Inr None"
  by code_simp

text \<open>
  C3, amended. Let the buffer hold, anywhere, the \<open>template:\<close> key, then whitespace
  (none, or any run of whitespace characters), then a backslash and a backtick, then a
  literal that does not end in a backslash, then a backtick, and a comma or a closing
  brace among the nine characters after it. Then \<open>extract_template\<close> finds an anchor
  and returns a present result. If moreover no anchor matches before this key and
  every backtick inside the literal is preceded by a backslash, the result is this
  literal, unescaped.
\<close>

theorem template_anchor_present:
  assumes "content = pre @ ''template:'' @ ws @ [backslash, backtick] @ body @ [backtick] @ after"
    and "\<forall>c\<in>set ws. is_space c"
    and "body = [] \<or> last body \<noteq> backslash"
    and "comma \<in> set (take 9 after) \<or> rbrace \<in> set (take 9 after)"
  shows "(\<exists>t. extract_template content = Inr (Some t)) \<and>
         ((\<forall>p<length pre. re_match template_pattern (drop p content) = None) \<and>
          (\<forall>k<length body. body ! k = backtick \<longrightarrow> 0 < k \<and> body ! (k - 1) = backslash)
            \<longrightarrow> extract_template content = Inr (Some (unescape body)))"
proof (intro conjI impI)
  define j where "j = length pre + 9 + length ws + 2 + length body"
  from template_anchor_found [OF assms(1,2,3)]
  obtain s e where se: "re_search template_pattern content = Some (s, e)" "0 < e" "e \<le> j"
    "j < length content" "content ! j = backtick" "content ! (j - 1) \<noteq> backslash"
    "drop (Suc j) content = after"
    unfolding j_def by blast
  have look: "comma \<in> set (take 9 (drop (Suc j) content)) \<or>
              rbrace \<in> set (take 9 (drop (Suc j) content))"
    using assms(4) se(7) by (simp only:)
  from template_loop_found [OF se(2,3,4,5,6) look, of "int e"]
  obtain t where "template_loop content (int e) (int e) = Inr (Some t)" by blast
  then have "extract_template content = Inr (Some t)"
    using se(1) by (simp add: extract_template_def)
  then show "\<exists>t. extract_template content = Inr (Some t)" by blast
next
  assume a: "(\<forall>p<length pre. re_match template_pattern (drop p content) = None) \<and>
          (\<forall>k<length body. body ! k = backtick \<longrightarrow> 0 < k \<and> body ! (k - 1) = backslash)"
  have "drop (length pre) content
      = ''template:'' @ ws @ [backslash, backtick] @ (body @ [backtick] @ after)"
    using assms(1) by simp
  then have here: "re_match template_pattern (drop (length pre) content)
      = Some (9 + length ws + 2)"
    using template_anchor_matches [OF assms(2)] by simp
  have "length pre \<le> length content" using assms(1) by simp
  then have "re_search template_pattern content
      = Some (length pre, length pre + (9 + length ws + 2))"
    using here a by (intro re_search_first) blast+
  then have r: "re_search template_pattern content
      = Some (length pre, length (pre @ ''template:'' @ ws) + 2)"
    by (simp add: add.assoc)
  have c: "content = (pre @ ''template:'' @ ws) @ [backslash, backtick] @ body @ [backtick] @ after"
    using assms(1) by simp
  show "extract_template content = Inr (Some (unescape body))"
    using r c _ assms(3,4) by (rule extract_template_literal) (use a in blast)
qed

theorem template_anchor_present_witness:
  "extract_template
     (''{ '' @ ''template:'' @ [CHR 0x0A, CHR 0x09] @ [backslash, backtick] @ ''<div></div>'' @
      [backtick] @ '','')
   = Inr (Some ''<div></div>'')"
proof -
  let ?ws = "[CHR 0x0A, CHR 0x09]" and ?body = "''<div></div>''"
  let ?c = "''{ '' @ ''template:'' @ ?ws @ [backslash, backtick] @ ?body @ [backtick] @ '',''"
  have h2: "\<forall>c\<in>set ?ws. is_space c" by (simp add: is_space_def)
  have h3: "?body = [] \<or> last ?body \<noteq> backslash" by (simp add: backslash_def)
  have h4: "comma \<in> set (take 9 '','') \<or> rbrace \<in> set (take 9 '','')"
    by (simp add: comma_def)
  have p0: "re_match template_pattern (drop 0 ?c) = None" by code_simp
  have p1: "re_match template_pattern (drop 1 ?c) = None" by code_simp
  have first: "\<forall>p<length ''{ ''. re_match template_pattern (drop p ?c) = None"
  proof (intro allI impI)
    fix p :: nat assume "p < length ''{ ''"
    then have "p = 0 \<or> p = 1" by auto
    with p0 p1 show "re_match template_pattern (drop p ?c) = None" by blast
  qed
  have esc: "\<forall>k<length ?body. ?body ! k = backtick \<longrightarrow> 0 < k \<and> ?body ! (k - 1) = backslash"
  proof (intro allI impI)
    fix k assume "k < length ?body" and b: "?body ! k = backtick"
    then have "?body ! k \<in> set ?body" by (intro nth_mem)
    with b have "backtick \<in> set ?body" by simp
    then show "0 < k \<and> ?body ! (k - 1) = backslash" by (simp add: backtick_def)
  qed
  have "extract_template ?c = Inr (Some (unescape ?body))"
    using template_anchor_present [OF refl h2 h3 h4, THEN conjunct2] first esc by blast
  moreover have "unescape ?body = ?body" by code_simp
  ultimately show ?thesis by simp
qed

section \<open>The section extractors stop at the matching brace\<close>

lemma py_slice_embedded:
  assumes "a \<le> b" and "b \<le> length t"
  shows "py_slice (pre @ t @ rest) (int (length pre + a)) (int (length pre + b))
         = take (b - a) (drop a t)"
proof -
  have "drop (length pre + a) (pre @ t @ rest) = drop a t @ rest" using assms by simp
  moreover have "b - a \<le> length (drop a t)" using assms by simp
  ultimately show ?thesis unfolding py_slice_nat by simp
qed

lemma between_braces_embedded:
  assumes "find_matching_brace t (int e - 1) = Inr (int j)" and "0 < e"
    and "pre = [] \<or> 1 < e"
  shows "between_braces (pre @ t @ rest) (length pre + e) = Inr (Some (take (j - e) (drop e t)))"
proof -
  have ie: "int e - 1 = int (e - 1)" using assms(2) by linarith
  from assms(1) have f: "find_matching_brace t (int (e - 1)) = Inr (int j)" by (simp only: ie)
  then obtain n where n: "j = e - 1 + n" "e - 1 + n < length t"
    unfolding fmb_closes_iff by blast
  have "find_matching_brace (pre @ t @ rest) (int (length pre + (e - 1)))
      = Inr (int (length pre + j))"
    using f by (rule fmb_embedded) (use assms(3) in auto)
  moreover have "int (length pre + (e - 1)) = int (length pre + e) - 1"
    using assms(2) by linarith
  ultimately have g: "find_matching_brace (pre @ t @ rest) (int (length pre + e) - 1)
      = Inr (int (length pre + j))" by (simp only:)
  have sl: "py_slice (pre @ t @ rest) (int (length pre + e)) (int (length pre + j))
      = take (j - e) (drop e t)"
  proof (cases "e \<le> j")
    case True
    then show ?thesis using n by (intro py_slice_embedded) simp_all
  next
    case False
    have "py_slice (pre @ t @ rest) (int (length pre + e)) (int (length pre + j))
        = take (length pre + j - (length pre + e)) (drop (length pre + e) (pre @ t @ rest))"
      by (rule py_slice_nat)
    then show ?thesis using False by simp
  qed
  have ne: "int (length pre + j) \<noteq> - 1" by linarith
  have one: "int (length pre + e) - 1 + 1 = int (length pre + e)" by simp
  show ?thesis
    unfolding between_braces_def Let_def g sum.case one sl using ne by simp
qed


text \<open>The anchor of a section, with any run of whitespace before the opening brace.\<close>

lemma section_anchor_matches:
  assumes "\<forall>c\<in>set ws. is_space c"
  shows "re_match (section_pattern key) (section_name key @ '':'' @ ws @ [lbrace] @ x)
         = Some (length (section_name key) + 1 + length ws + 1)"
proof -
  have sp: "re_match [Spaces, Lit [lbrace]] (ws @ [lbrace] @ x) = Some (length ws + length [lbrace])"
    using assms by (rule re_match_spaces_literal) (simp_all add: is_space_def lbrace_def)
  show ?thesis
    unfolding section_pattern_def using sp by (cases key) simp_all
qed


lemma section_anchor_shape:
  assumes "re_match (section_pattern key) y = Some n"
  shows "0 < n \<and> n \<le> length y \<and> y ! (n - 1) = lbrace"
proof -
  define a where "a = length (section_name key) + 1"
  have "re_match (Lit (section_name key) # [Lit '':'', Spaces, Lit [lbrace]]) y = Some n"
    using assms by (simp only: section_pattern_def)
  from re_match_literal_first [OF this]
  obtain m1 where m1: "re_match (Lit '':'' # [Spaces, Lit [lbrace]])
      (drop (length (section_name key)) y) = Some m1" "n = length (section_name key) + m1"
    by blast
  from re_match_literal_first [OF m1(1)]
  obtain m where "re_match [Spaces, Lit [lbrace]]
      (drop (length '':'') (drop (length (section_name key)) y)) = Some m" "m1 = length '':'' + m"
    by blast
  then have m: "re_match [Spaces, Lit [lbrace]] (drop a y) = Some m" "n = a + m"
    using m1(2) by (simp_all add: a_def add.commute)
  from re_match_spaces_literal_shape [OF m(1)]
  obtain w where w: "m = w + length [lbrace]" "take (length [lbrace]) (drop w (drop a y)) = [lbrace]"
    by blast
  have w1: "m = w + 1" using w(1) by simp
  have w2: "take 1 (drop (a + w) y) = [lbrace]" using w(2) by (simp add: add.commute)
  have nb: "n \<le> length y" using assms by (rule re_match_bound)
  have "drop (a + w) y \<noteq> []" using w2 by auto
  then have lt: "a + w < length y" by simp
  then have "drop (a + w) y = y ! (a + w) # drop (Suc (a + w)) y"
    by (rule Cons_nth_drop_Suc [symmetric])
  with w2 have "y ! (a + w) = lbrace" by simp
  moreover have "n - 1 = a + w" using m(2) w1 by simp
  ultimately show ?thesis using nb m(2) w1 by simp
qed

lemma section_anchor_brace:
  assumes "re_search (section_pattern key) content = Some (s, e)"
  shows "0 < e \<and> e \<le> length content \<and> content ! (e - 1) = lbrace"
proof -
  from re_search_sound [OF assms]
  have b: "s \<le> length content" "s \<le> e" "e \<le> length content"
    "re_match (section_pattern key) (drop s content) = Some (e - s)" by auto
  from section_anchor_shape [OF b(4)]
  have sh: "0 < e - s" "drop s content ! (e - s - 1) = lbrace" by auto
  have "drop s content ! (e - s - 1) = content ! (s + (e - s - 1))"
    using b(1) by (rule nth_drop)
  moreover have "s + (e - s - 1) = e - 1" using sh(1) by simp
  ultimately show ?thesis using sh b(3) by simp
qed

lemma extract_section_stops_at_first_close:
  assumes "extract_section content key = Inr (Some u)"
  shows "\<exists>s e n. re_search (section_pattern key) content = Some (s, e) \<and> 0 < e \<and>
           content ! (e - 1) = lbrace \<and> e - 1 + n < length content \<and>
           closes_at content (e - 1) n \<and> (\<forall>m<n. \<not> closes_at content (e - 1) m) \<and>
           u = take (n - 1) (drop e content)"
proof -
  from extract_section_result [OF assms]
  obtain s e j where r: "re_search (section_pattern key) content = Some (s, e)"
    "find_matching_brace content (int e - 1) = Inr (int j)"
    "u = take (j - e) (drop e content)" by blast
  from section_anchor_brace [OF r(1)]
  have e: "0 < e" "content ! (e - 1) = lbrace" by auto
  have ie: "int e - 1 = int (e - 1)" using e(1) by linarith
  from r(2) have "find_matching_brace content (int (e - 1)) = Inr (int j)" by (simp only: ie)
  then obtain n where n: "j = e - 1 + n" "e - 1 + n < length content"
    "closes_at content (e - 1) n" "\<forall>m<n. \<not> closes_at content (e - 1) m"
    unfolding fmb_closes_iff by blast
  have "j - e = n - 1" using n(1) e(1) by simp
  with r(3) have "u = take (n - 1) (drop e content)" by simp
  with r(1) e n(2,3,4) show ?thesis by blast
qed

lemma methods_block_extracted:
  assumes ws: "\<forall>c\<in>set ws. is_space c"
    and zero: "brace_depth (''methods:'' @ ws @ [lbrace] @ body @ [rbrace]) (8 + length ws)
                 (Suc (Suc (length body))) = 0"
    and pos: "\<forall>m\<le>length body.
                 0 < brace_depth (''methods:'' @ ws @ [lbrace] @ body @ [rbrace]) (8 + length ws)
                       (Suc m)"
    and first: "\<forall>p<length pre. re_match (section_pattern Methods)
                   (drop p (pre @ ''methods:'' @ ws @ [lbrace] @ body @ [rbrace] @ rest)) = None"
  shows "extract_section (pre @ ''methods:'' @ ws @ [lbrace] @ body @ [rbrace] @ rest) Methods
         = Inr (Some body)"
proof -
  define t where "t = ''methods:'' @ ws @ [lbrace] @ body @ [rbrace]"
  define opn where "opn = 8 + length ws"
  define content where "content = pre @ t @ rest"
  have c: "pre @ ''methods:'' @ ws @ [lbrace] @ body @ [rbrace] @ rest = content"
    by (simp add: content_def t_def)
  have eight: "length ''methods:'' = 8" by simp
  have lt: "length t = opn + length body + 2" by (simp add: t_def opn_def)
  have "t = (''methods:'' @ ws) @ lbrace # (body @ [rbrace])" by (simp add: t_def)
  moreover have "length (''methods:'' @ ws) = opn" by (simp add: opn_def)
  ultimately have at: "t ! opn = lbrace" by (metis nth_append_length)
  have z: "brace_depth t opn (Suc (Suc (length body))) = 0"
    using zero by (simp only: t_def opn_def)
  have p: "\<forall>m\<le>length body. 0 < brace_depth t opn (Suc m)"
    using pos by (simp only: t_def opn_def)
  have "\<exists>n. opn + n < length t \<and> brace_depth t opn (Suc n) = 0"
    using z lt by (intro exI [of _ "Suc (length body)"]) simp
  from fmb_depth_returns_to_zero [OF _ at this]
  obtain j where j: "find_matching_brace t (int opn) = Inr (int j)" "opn < j" "j < length t"
    "brace_depth t opn (Suc (j - opn)) = 0"
    "\<forall>k. opn \<le> k \<and> k < j \<longrightarrow> 0 < brace_depth t opn (Suc (k - opn))"
    using lt by auto
  have "\<not> j - opn \<le> length body" using p j(4) by force
  then have "j = opn + length body + 1" using j(3) lt by simp
  then have jj: "find_matching_brace t (int (Suc opn) - 1) = Inr (int (opn + length body + 1))"
    using j(1) by simp
  have "between_braces (pre @ t @ rest) (length pre + Suc opn)
      = Inr (Some (take (opn + length body + 1 - Suc opn) (drop (Suc opn) t)))"
    using jj by (rule between_braces_embedded) (simp_all add: opn_def)
  moreover have "drop (Suc opn) t = body @ [rbrace]"
  proof -
    have "t = (''methods:'' @ ws @ [lbrace]) @ body @ [rbrace]" by (simp add: t_def)
    moreover have "length (''methods:'' @ ws @ [lbrace]) = Suc opn" by (simp add: opn_def)
    ultimately show ?thesis by (metis append_eq_conv_conj)
  qed
  ultimately have bb: "between_braces content (length pre + Suc opn) = Inr (Some body)"
    by (simp add: content_def)
  have "re_match (section_pattern Methods)
          (section_name Methods @ '':'' @ ws @ [lbrace] @ (body @ [rbrace] @ rest))
        = Some (length (section_name Methods) + 1 + length ws + 1)"
    using ws by (rule section_anchor_matches)
  moreover have "drop (length pre) content
      = section_name Methods @ '':'' @ ws @ [lbrace] @ (body @ [rbrace] @ rest)"
    by (simp add: content_def t_def)
  ultimately have m: "re_match (section_pattern Methods) (drop (length pre) content) = Some (Suc opn)"
    by (simp add: opn_def)
  have f: "\<forall>p<length pre. re_match (section_pattern Methods) (drop p content) = None"
    using first by (simp only: c)
  have "length pre \<le> length content" by (simp add: content_def)
  from re_search_first [OF this m f]
  have "re_search (section_pattern Methods) content = Some (length pre, length pre + Suc opn)" .
  then have "extract_section content Methods = Inr (Some body)"
    using bb by (simp add: extract_section_def)
  then show ?thesis by (simp only: c)
qed


text \<open>
  C5, as stated, fails on a buffer in which the anchor \<open>methods: {\<close> also occurs
  earlier, here in a comment line before the section: the search takes the first
  match, the scan starts at the brace of the comment, the whole section is nested one
  level deeper, and the extraction runs to the first stray closing brace of the later
  text.
\<close>

theorem earlier_anchor_reaches_stray_brace:
  "extract_section
     (''// methods: {'' @ [CHR 0x0A] @ ''methods: { foo() { return 1; } }'' @ [CHR 0x0A] @ ''} }'')
     Methods
   = Inr (Some ([CHR 0x0A] @ ''methods: { foo() { return 1; } }'' @ [CHR 0x0A]))"
  by code_simp

text \<open>
  C5, amended. (1) For every buffer and every index of an opening brace from which the
  quote-aware depth returns to zero somewhere in the buffer, \<open>find_matching_brace\<close>
  returns an index \<open>j\<close> of a closing brace at which the depth is zero, the depth being
  positive at every position from the opening brace up to \<open>j\<close> excluded.
  (2) Whenever \<open>extract_section\<close> returns a span, the first match of the anchor ends
  in an opening brace, and the span is the text after this brace up to the first
  position at which a closing brace outside strings brings the depth, counted from this
  brace, back to zero.
  (3) For a buffer that holds \<open>methods:\<close>, whitespace, and a block \<open>{ body }\<close>
  whose depth is zero at its last brace and positive before, followed by any later
  text, and in which the anchor matches at no position before this key,
  \<open>extract_section\<close> for \<open>methods\<close> returns exactly \<open>body\<close>, whatever the
  later text holds.
\<close>

theorem matching_brace_closes_once:
  "(\<forall>buf start.
      start < length buf \<and> buf ! start = lbrace \<and>
      (\<exists>n. start + n < length buf \<and> brace_depth buf start (Suc n) = 0) \<longrightarrow>
      (\<exists>j. find_matching_brace buf (int start) = Inr (int j) \<and> start < j \<and> j < length buf \<and>
           buf ! j = rbrace \<and> brace_depth buf start (Suc (j - start)) = 0 \<and>
           (\<forall>k. start \<le> k \<and> k < j \<longrightarrow> 0 < brace_depth buf start (Suc (k - start))))) \<and>
   (\<forall>content key u.
      extract_section content key = Inr (Some u) \<longrightarrow>
      (\<exists>s e n. re_search (section_pattern key) content = Some (s, e) \<and> 0 < e \<and>
           content ! (e - 1) = lbrace \<and> e - 1 + n < length content \<and>
           closes_at content (e - 1) n \<and> (\<forall>m<n. \<not> closes_at content (e - 1) m) \<and>
           u = take (n - 1) (drop e content))) \<and>
   (\<forall>pre ws body rest.
      (\<forall>c\<in>set ws. is_space c) \<and>
      brace_depth (''methods:'' @ ws @ [lbrace] @ body @ [rbrace]) (8 + length ws)
        (Suc (Suc (length body))) = 0 \<and>
      (\<forall>m\<le>length body.
          0 < brace_depth (''methods:'' @ ws @ [lbrace] @ body @ [rbrace]) (8 + length ws)
                (Suc m)) \<and>
      (\<forall>p<length pre. re_match (section_pattern Methods)
          (drop p (pre @ ''methods:'' @ ws @ [lbrace] @ body @ [rbrace] @ rest)) = None) \<longrightarrow>
      extract_section (pre @ ''methods:'' @ ws @ [lbrace] @ body @ [rbrace] @ rest) Methods
        = Inr (Some body))"
proof (intro conjI allI impI)
  fix buf start
  assume "start < length buf \<and> buf ! start = lbrace \<and>
      (\<exists>n. start + n < length buf \<and> brace_depth buf start (Suc n) = 0)"
  then show "\<exists>j. find_matching_brace buf (int start) = Inr (int j) \<and> start < j \<and> j < length buf \<and>
           buf ! j = rbrace \<and> brace_depth buf start (Suc (j - start)) = 0 \<and>
           (\<forall>k. start \<le> k \<and> k < j \<longrightarrow> 0 < brace_depth buf start (Suc (k - start)))"
    by (intro fmb_depth_returns_to_zero) simp_all
next
  fix content key u
  assume "extract_section content key = Inr (Some u)"
  then show "\<exists>s e n. re_search (section_pattern key) content = Some (s, e) \<and> 0 < e \<and>
           content ! (e - 1) = lbrace \<and> e - 1 + n < length content \<and>
           closes_at content (e - 1) n \<and> (\<forall>m<n. \<not> closes_at content (e - 1) m) \<and>
           u = take (n - 1) (drop e content)"
    by (rule extract_section_stops_at_first_close)
next
  fix pre ws body rest
  assume h: "(\<forall>c\<in>set ws. is_space c) \<and>
      brace_depth (''methods:'' @ ws @ [lbrace] @ body @ [rbrace]) (8 + length ws)
        (Suc (Suc (length body))) = 0 \<and>
      (\<forall>m\<le>length body.
          0 < brace_depth (''methods:'' @ ws @ [lbrace] @ body @ [rbrace]) (8 + length ws)
                (Suc m)) \<and>
      (\<forall>p<length pre. re_match (section_pattern Methods)
          (drop p (pre @ ''methods:'' @ ws @ [lbrace] @ body @ [rbrace] @ rest)) = None)"
  show "extract_section (pre @ ''methods:'' @ ws @ [lbrace] @ body @ [rbrace] @ rest) Methods
        = Inr (Some body)"
    by (rule methods_block_extracted)
       (rule h [THEN conjunct1], rule h [THEN conjunct2, THEN conjunct1],
        rule h [THEN conjunct2, THEN conjunct2, THEN conjunct1],
        rule h [THEN conjunct2, THEN conjunct2, THEN conjunct2])
qed

theorem matching_brace_closes_once_witness:
  "(\<exists>j. find_matching_brace ''methods: { foo() { return 1; } } } stray }'' (int 9) = Inr (int j) \<and>
        j = 31 \<and>
        brace_depth ''methods: { foo() { return 1; } } } stray }'' 9 (Suc (j - 9)) = 0) \<and>
   (\<exists>s e n. re_search (section_pattern Methods) ''x; methods: { foo() { return 1; } } } stray }''
              = Some (s, e) \<and>
        closes_at ''x; methods: { foo() { return 1; } } } stray }'' (e - 1) n) \<and>
   extract_section ''x; methods: { foo() { return 1; } } } stray }'' Methods
     = Inr (Some '' foo() { return 1; } '')"
proof (intro conjI)
  let ?b = "''methods: { foo() { return 1; } } } stray }''"
  have a: "9 < length ?b \<and> ?b ! 9 = lbrace \<and>
      (\<exists>n. 9 + n < length ?b \<and> brace_depth ?b 9 (Suc n) = 0)"
  proof (intro conjI exI [of _ 22])
    show "brace_depth ?b 9 (Suc 22) = 0" by code_simp
  qed (simp_all add: lbrace_def)
  from matching_brace_closes_once [THEN conjunct1, rule_format, OF a]
  obtain j where j: "find_matching_brace ?b (int 9) = Inr (int j)"
      "brace_depth ?b 9 (Suc (j - 9)) = 0" by blast
  have "find_matching_brace ?b (int 9) = Inr (int 31)" by code_simp
  with j(1) have "j = 31" by simp
  with j show "\<exists>j. find_matching_brace ?b (int 9) = Inr (int j) \<and> j = 31 \<and>
        brace_depth ?b 9 (Suc (j - 9)) = 0" by blast
next
  let ?pre = "''x; ''" and ?ws = "'' ''" and ?body = "'' foo() { return 1; } ''"
  let ?rest = "'' } stray }''"
  let ?t = "''methods:'' @ ?ws @ [lbrace] @ ?body @ [rbrace]"
  let ?c = "?pre @ ''methods:'' @ ?ws @ [lbrace] @ ?body @ [rbrace] @ ?rest"
  have c: "?c = ''x; methods: { foo() { return 1; } } } stray }''" by (simp add: lbrace_def rbrace_def)
  have h1: "\<forall>c\<in>set ?ws. is_space c" by (simp add: is_space_def)
  have h2: "brace_depth ?t (8 + length ?ws) (Suc (Suc (length ?body))) = 0" by code_simp
  have "\<forall>m\<in>set [0..<22]. 0 < brace_depth ?t (8 + length ?ws) (Suc m)" by code_simp
  then have h3: "\<forall>m\<le>length ?body. 0 < brace_depth ?t (8 + length ?ws) (Suc m)" by simp
  have "\<forall>p\<in>set [0..<3]. re_match (section_pattern Methods) (drop p ?c) = None" by code_simp
  then have h4: "\<forall>p<length ?pre. re_match (section_pattern Methods) (drop p ?c) = None" by simp
  have "extract_section ?c Methods = Inr (Some ?body)"
    by (rule matching_brace_closes_once [THEN conjunct2, THEN conjunct2, rule_format])
       (intro conjI h1 h2 h3 h4)
  then show r: "extract_section ''x; methods: { foo() { return 1; } } } stray }'' Methods
     = Inr (Some '' foo() { return 1; } '')"
    using c by simp
  from matching_brace_closes_once [THEN conjunct2, THEN conjunct1, rule_format, OF r]
  show "\<exists>s e n. re_search (section_pattern Methods) ''x; methods: { foo() { return 1; } } } stray }''
              = Some (s, e) \<and>
        closes_at ''x; methods: { foo() { return 1; } } } stray }'' (e - 1) n" by blast
qed

section \<open>The data extractor on the documented scenario\<close>

lemma re_match_spaces_first:
  assumes "re_match (Spaces # r) y = Some n"
  shows "\<exists>w m. n = w + m \<and> w \<le> length y \<and> re_match r (drop w y) = Some m"
  using assms
proof (induction y arbitrary: n)
  case Nil
  then show ?case by simp
next
  case (Cons c cs)
  show ?case
  proof (cases "is_space c \<and> re_match (Spaces # r) cs \<noteq> None")
    case True
    then obtain k where k: "re_match (Spaces # r) cs = Some k" by blast
    with True Cons.prems have n: "n = Suc k" by simp
    from Cons.IH [OF k] obtain w m where
      "k = w + m" "w \<le> length cs" "re_match r (drop w cs) = Some m" by blast
    then have "n = Suc w + m \<and> Suc w \<le> length (c # cs) \<and> re_match r (drop (Suc w) (c # cs)) = Some m"
      using n by simp
    then show ?thesis by blast
  next
    case False
    then have "re_match r (c # cs) = Some n"
      using Cons.prems by (auto split: option.splits if_splits)
    then have "n = 0 + n \<and> 0 \<le> length (c # cs) \<and> re_match r (drop 0 (c # cs)) = Some n" by simp
    then show ?thesis by blast
  qed
qed

lemma re_match_ends_in_brace:
  assumes "re_match (p @ [Lit [lbrace]]) y = Some n"
  shows "0 < n \<and> n \<le> length y \<and> y ! (n - 1) = lbrace"
  using assms
proof (induction p arbitrary: y n)
  case Nil
  then have t: "take 1 y = [lbrace]" and n: "n = 1" by (auto split: if_splits)
  from t have "y \<noteq> []" by auto
  then obtain c cs where y: "y = c # cs" by (cases y) auto
  with t have "c = lbrace" by simp
  with y n show ?case by simp
next
  case (Cons a p)
  have shift: "0 < n \<and> n \<le> length y \<and> y ! (n - 1) = lbrace"
    if w: "w \<le> length y" and m: "re_match (p @ [Lit [lbrace]]) (drop w y) = Some m"
      and n: "n = w + m" for w m
  proof -
    from Cons.IH [OF m] have i: "0 < m" "m \<le> length (drop w y)" "drop w y ! (m - 1) = lbrace"
      by auto
    have "drop w y ! (m - 1) = y ! (w + (m - 1))" using w by (rule nth_drop)
    moreover have "w + (m - 1) = n - 1" using i(1) n by simp
    ultimately show ?thesis using i n by simp
  qed
  show ?case
  proof (cases a)
    case (Lit l)
    with Cons.prems have "re_match (Lit l # (p @ [Lit [lbrace]])) y = Some n" by simp
    from re_match_literal_first [OF this]
    obtain m where m: "take (length l) y = l"
      "re_match (p @ [Lit [lbrace]]) (drop (length l) y) = Some m" "n = length l + m" by blast
    have "length (take (length l) y) = length l" using m(1) by simp
    then have "length l \<le> length y" by simp
    then show ?thesis using m(2,3) by (rule shift)
  next
    case Spaces
    with Cons.prems have "re_match (Spaces # (p @ [Lit [lbrace]])) y = Some n" by simp
    from re_match_spaces_first [OF this]
    obtain w m where "n = w + m" "w \<le> length y"
      "re_match (p @ [Lit [lbrace]]) (drop w y) = Some m" by blast
    then show ?thesis using shift by blast
  qed
qed

lemma data_anchor_brace:
  assumes "re_search data_pattern content = Some (s, e)"
  shows "0 < e \<and> e \<le> length content \<and> content ! (e - 1) = lbrace"
proof -
  from re_search_sound [OF assms]
  have b: "s \<le> length content" "s \<le> e" "e \<le> length content"
    "re_match data_pattern (drop s content) = Some (e - s)" by auto
  have "data_pattern = [Lit ''data()'', Spaces, Lit [lbrace], Spaces, Lit ''return'', Spaces]
      @ [Lit [lbrace]]" by (simp add: data_pattern_def)
  with b(4) have "re_match ([Lit ''data()'', Spaces, Lit [lbrace], Spaces, Lit ''return'', Spaces]
      @ [Lit [lbrace]]) (drop s content) = Some (e - s)" by simp
  from re_match_ends_in_brace [OF this]
  have sh: "0 < e - s" "drop s content ! (e - s - 1) = lbrace" by auto
  have "drop s content ! (e - s - 1) = content ! (s + (e - s - 1))"
    using b(1) by (rule nth_drop)
  moreover have "s + (e - s - 1) = e - 1" using sh(1) by simp
  ultimately show ?thesis using sh b(3) by simp
qed

lemma extract_data_stops_at_first_close:
  assumes "extract_data content = Inr (Some u)"
  shows "\<exists>s e n. re_search data_pattern content = Some (s, e) \<and> 0 < e \<and>
           content ! (e - 1) = lbrace \<and> e - 1 + n < length content \<and>
           content ! (e - 1 + n) = rbrace \<and>
           closes_at content (e - 1) n \<and> (\<forall>m<n. \<not> closes_at content (e - 1) m) \<and>
           u = take (n - 1) (drop e content)"
proof -
  from extract_data_result [OF assms]
  obtain s e j where r: "re_search data_pattern content = Some (s, e)"
    "find_matching_brace content (int e - 1) = Inr (int j)"
    "u = take (j - e) (drop e content)" by blast
  from data_anchor_brace [OF r(1)]
  have e: "0 < e" "content ! (e - 1) = lbrace" by auto
  have ie: "int e - 1 = int (e - 1)" using e(1) by linarith
  from r(2) have "find_matching_brace content (int (e - 1)) = Inr (int j)" by (simp only: ie)
  then obtain n where n: "j = e - 1 + n" "e - 1 + n < length content"
    "closes_at content (e - 1) n" "\<forall>m<n. \<not> closes_at content (e - 1) m"
    unfolding fmb_closes_iff by blast
  have cl: "content ! (e - 1 + n) = rbrace" using n(3) by (simp add: closes_at_def)
  have "j - e = n - 1" using n(1) e(1) by simp
  with r(3) have "u = take (n - 1) (drop e content)" by simp
  with r(1) e n(2,3,4) cl show ?thesis by blast
qed

lemma data_scenario:
  assumes first: "\<forall>p<length pre.
      re_match data_pattern (drop p (pre @ ''data() { return { count: 0 }; }'' @ rest)) = None"
  shows "extract_data (pre @ ''data() { return { count: 0 }; }'' @ rest) = Inr (Some '' count: 0 '')"
proof -
  let ?t = "''data() { return { count: 0 }; }''"
  let ?c = "pre @ ?t @ rest"
  have f: "find_matching_brace ?t (int 17 - 1) = Inr (int 27)" by code_simp
  have "between_braces (pre @ ?t @ rest) (length pre + 17) = Inr (Some (take (27 - 17) (drop 17 ?t)))"
    using f by (rule between_braces_embedded) simp_all
  then have bb: "between_braces ?c (length pre + 17) = Inr (Some '' count: 0 '')" by simp
  have m: "re_match data_pattern (drop (length pre) ?c) = Some 17"
    by (simp add: data_pattern_def is_space_def lbrace_def)
  have "length pre \<le> length ?c" by simp
  from re_search_first [OF this m first]
  have "re_search data_pattern ?c = Some (length pre, length pre + 17)" .
  then show ?thesis using bb by (simp add: extract_data_def)
qed


text \<open>
  C8, as stated, fails on a buffer that contains the scenario after an earlier
  \<open>data()\<close> initialiser: the search takes the first match of the anchor, and the
  result is the object of the earlier initialiser.
\<close>

theorem earlier_data_anchor_wins:
  "extract_data ''data() { return { a: 1 }; } data() { return { count: 0 }; }''
   = Inr (Some '' a: 1 '')"
  by code_simp

text \<open>
  C8, amended. (1) Whenever \<open>extract_data\<close> returns a span, the first match of the
  anchor ends in an opening brace, a closing brace stands at the first position that
  brings the depth counted from this brace back to zero, and the span is the text of the
  buffer strictly between the two braces, unchanged. (2) For every buffer that
  contains \<open>data() { return { count: 0 }; }\<close>, with any text before and after it, and
  in which the anchor matches at no position before this occurrence,
  \<open>extract_data\<close> returns \<open>count: 0\<close> with the space before and the space after
  it.
\<close>

theorem data_object_between_braces:
  "(\<forall>content u.
      extract_data content = Inr (Some u) \<longrightarrow>
      (\<exists>s e n. re_search data_pattern content = Some (s, e) \<and> 0 < e \<and>
           content ! (e - 1) = lbrace \<and> e - 1 + n < length content \<and>
           content ! (e - 1 + n) = rbrace \<and>
           closes_at content (e - 1) n \<and> (\<forall>m<n. \<not> closes_at content (e - 1) m) \<and>
           u = take (n - 1) (drop e content))) \<and>
   (\<forall>pre rest.
      (\<forall>p<length pre.
          re_match data_pattern (drop p (pre @ ''data() { return { count: 0 }; }'' @ rest)) = None)
      \<longrightarrow> extract_data (pre @ ''data() { return { count: 0 }; }'' @ rest)
            = Inr (Some '' count: 0 ''))"
proof (intro conjI allI impI)
  fix content u
  assume "extract_data content = Inr (Some u)"
  then show "\<exists>s e n. re_search data_pattern content = Some (s, e) \<and> 0 < e \<and>
           content ! (e - 1) = lbrace \<and> e - 1 + n < length content \<and>
           content ! (e - 1 + n) = rbrace \<and>
           closes_at content (e - 1) n \<and> (\<forall>m<n. \<not> closes_at content (e - 1) m) \<and>
           u = take (n - 1) (drop e content)"
    by (rule extract_data_stops_at_first_close)
next
  fix pre rest
  assume "\<forall>p<length pre.
      re_match data_pattern (drop p (pre @ ''data() { return { count: 0 }; }'' @ rest)) = None"
  then show "extract_data (pre @ ''data() { return { count: 0 }; }'' @ rest)
      = Inr (Some '' count: 0 '')"
    by (rule data_scenario)
qed

theorem data_object_between_braces_witness:
  "extract_data ''x = 1; data() { return { count: 0 }; } }}'' = Inr (Some '' count: 0 '') \<and>
   (\<exists>s e n. re_search data_pattern ''x = 1; data() { return { count: 0 }; } }}'' = Some (s, e) \<and>
        ''x = 1; data() { return { count: 0 }; } }}'' ! (e - 1) = lbrace \<and>
        ''x = 1; data() { return { count: 0 }; } }}'' ! (e - 1 + n) = rbrace \<and>
        '' count: 0 '' = take (n - 1) (drop e ''x = 1; data() { return { count: 0 }; } }}''))"
proof -
  let ?pre = "''x = 1; ''" and ?rest = "'' }}''"
  let ?c = "?pre @ ''data() { return { count: 0 }; }'' @ ?rest"
  have c: "?c = ''x = 1; data() { return { count: 0 }; } }}''" by simp
  have "\<forall>p\<in>set [0..<7]. re_match data_pattern (drop p ?c) = None" by code_simp
  then have h: "\<forall>p<length ?pre. re_match data_pattern (drop p ?c) = None" by simp
  have "extract_data ?c = Inr (Some '' count: 0 '')"
    using data_object_between_braces [THEN conjunct2, THEN spec, THEN spec, THEN mp, OF h] .
  then have r: "extract_data ''x = 1; data() { return { count: 0 }; } }}''
      = Inr (Some '' count: 0 '')" using c by simp
  from data_object_between_braces [THEN conjunct1, rule_format, OF r]
  have "\<exists>s e n. re_search data_pattern ''x = 1; data() { return { count: 0 }; } }}'' = Some (s, e) \<and>
        ''x = 1; data() { return { count: 0 }; } }}'' ! (e - 1) = lbrace \<and>
        ''x = 1; data() { return { count: 0 }; } }}'' ! (e - 1 + n) = rbrace \<and>
        '' count: 0 '' = take (n - 1) (drop e ''x = 1; data() { return { count: 0 }; } }}'')"
    by blast
  with r show ?thesis by (rule conjI)
qed

end
